theory Spec2Isabelle
  imports Main
begin

section \<open>JavaScript values and helpers\<close>

text \<open>
  The values the library inspects with \<^verbatim>\<open>typeof\<close>, truthiness and \<^verbatim>\<open>== null\<close>.
  Numbers are the doubles that are integers (fractions and NaN are outside the model); a stream
  carries what \<^verbatim>\<open>util.bodyLength\<close> reports for it (\<open>None\<close> while its length is unknown).
  Strings are byte strings and \<^verbatim>\<open>toLowerCase\<close> is the ASCII one.
\<close>

datatype jsval =
    JUndefined
  | JNull
  | JBool bool
  | JNum int
  | JStr string
  | JBuffer string
  | JStream "nat option"
  | JObject

fun truthy :: "jsval \<Rightarrow> bool" where
  "truthy JUndefined = False"
| "truthy JNull = False"
| "truthy (JBool b) = b"
| "truthy (JNum n) = (n \<noteq> 0)"
| "truthy (JStr s) = (s \<noteq> [])"
| "truthy _ = True"

fun is_nullish :: "jsval \<Rightarrow> bool" where
  "is_nullish JUndefined = True"
| "is_nullish JNull = True"
| "is_nullish _ = False"

fun typeof_object :: "jsval \<Rightarrow> bool" where
  "typeof_object JNull = True"
| "typeof_object (JBuffer _) = True"
| "typeof_object (JStream _) = True"
| "typeof_object JObject = True"
| "typeof_object _ = False"

definition CRLF :: string where
  "CRLF = [CHR 0x0D, CHR 0x0A]"

definition lower_char :: "char \<Rightarrow> char" where
  "lower_char c =
     (let n = (of_char c :: nat) in if 65 \<le> n \<and> n \<le> 90 then char_of (n + 32) else c)"

definition toLowerCase :: "string \<Rightarrow> string" where
  "toLowerCase s = map lower_char s"

definition digit_char :: "nat \<Rightarrow> char" where
  "digit_char d = char_of (48 + d)"

fun show_nat :: "nat \<Rightarrow> string" where
  "show_nat n = (if n < 10 then [digit_char n] else show_nat (n div 10) @ [digit_char (n mod 10)])"

declare show_nat.simps [simp del]

text \<open>
  A number value is written \<open>JNum i\<close> and denotes the double nearest to the integer
  \<open>i\<close> (round to nearest, ties to even), which is \<open>i\<close> itself up to \<open>2 ^ 53\<close>.
  \<open>to_double\<close> gives that double for a natural number, \<open>None\<close> when it is
  \<^verbatim>\<open>Infinity\<close>.
\<close>

fun bitlen :: "nat \<Rightarrow> nat" where
  "bitlen n = (if n = 0 then 0 else Suc (bitlen (n div 2)))"

declare bitlen.simps [simp del]

definition to_double :: "nat \<Rightarrow> nat option" where
  "to_double n =
     (if n < 2 ^ 53 then Some n
      else
        (let e = bitlen n - 53;
             q = n div 2 ^ e;
             r = n mod 2 ^ e;
             q' = (if 2 * r > 2 ^ e \<or> (2 * r = 2 ^ e \<and> odd q) then q + 1 else q)
         in if q' * 2 ^ e \<ge> 2 ^ 1024 then None else Some (q' * 2 ^ e)))"

text \<open>
  \<^verbatim>\<open>Number.prototype.toString\<close> for a double \<open>x\<close> that is a natural number: the
  shortest digits \<open>s\<close> (there are \<open>k\<close> of them) and the exponent \<open>n\<close> with
  \<open>s * 10 ^ (n - k)\<close> rounding to \<open>x\<close>, the nearest to \<open>x\<close> if there are several and
  the even one of two equally near; the digits are followed by zeros up to \<open>n = 21\<close> and
  written with an exponent beyond.
\<close>

definition candidates :: "nat \<Rightarrow> nat \<Rightarrow> nat \<Rightarrow> (nat \<times> nat \<times> nat) list" where
  "candidates x k n =
     (if n < k then []
      else concat (map (\<lambda>s. if 10 ^ (k - 1) \<le> s \<and> s < 10 ^ k
                                  \<and> to_double (s * 10 ^ (n - k)) = Some x
                               then [(if s * 10 ^ (n - k) \<ge> x then s * 10 ^ (n - k) - x
                                      else x - s * 10 ^ (n - k), s, n)]
                               else [])
                       [x div 10 ^ (n - k), x div 10 ^ (n - k) + 1]))"

fun nearest :: "(nat \<times> nat \<times> nat) \<Rightarrow> (nat \<times> nat \<times> nat) list \<Rightarrow> nat \<times> nat" where
  "nearest b [] = snd b"
| "nearest b (c # cs) =
     (if fst c < fst b \<or> (fst c = fst b \<and> even (fst (snd c)) \<and> odd (fst (snd b)))
      then nearest c cs else nearest b cs)"

fun shortest :: "nat \<Rightarrow> nat \<Rightarrow> nat list \<Rightarrow> nat \<times> nat" where
  "shortest x d [] = (x, d)"
| "shortest x d (k # ks) =
     (case candidates x k d @ candidates x k (Suc d) of
        [] \<Rightarrow> shortest x d ks
      | c # cs \<Rightarrow> nearest c cs)"

definition number_string :: "nat \<Rightarrow> string" where
  "number_string x =
     (if x < 2 ^ 53 then show_nat x
      else
        (let sn = shortest x (length (show_nat x)) [1..<18];
             ds = show_nat (fst sn)
         in if snd sn \<le> 21 then ds @ replicate (snd sn - length ds) (CHR ''0'')
            else (case ds of
                    [] \<Rightarrow> []
                  | c # cs \<Rightarrow> (if cs = [] then [c] else c # CHR ''.'' # cs)
                               @ ''e+'' @ show_nat (snd sn - 1))))"

definition show_number :: "int \<Rightarrow> string" where
  "show_number i =
     (case to_double (nat \<bar>i\<bar>) of
        None \<Rightarrow> (if i < 0 then ''-Infinity'' else ''Infinity'')
      | Some x \<Rightarrow> (if i < 0 then CHR ''-'' # number_string x else number_string x))"

text \<open>Template-literal conversion \<^verbatim>\<open>`${val}`\<close> of a value.\<close>

fun js_to_string :: "jsval \<Rightarrow> string" where
  "js_to_string JUndefined = ''undefined''"
| "js_to_string JNull = ''null''"
| "js_to_string (JBool b) = (if b then ''true'' else ''false'')"
| "js_to_string (JNum n) = show_number n"
| "js_to_string (JStr s) = s"
| "js_to_string (JBuffer s) = s"
| "js_to_string (JStream _) = ''[object Object]''"
| "js_to_string JObject = ''[object Object]''"

text \<open>
  \<^verbatim>\<open>parseInt(val)\<close> without a radix: leading white space, an optional sign, then
  hexadecimal digits after \<^verbatim>\<open>0x\<close> or decimal digits, and the double nearest to the
  integer read. \<open>None\<close> is a result that is not finite, NaN or an infinity, which is all
  the callers ask. White space is tab, line feed, vertical tab, form feed, carriage
  return, space and the no-break space; the other white space of the language has code
  units above \<open>0xFF\<close>, which these strings do not have.
\<close>

definition is_blank :: "char \<Rightarrow> bool" where
  "is_blank c =
     (c = CHR '' '' \<or> c = CHR 0x09 \<or> c = CHR 0x0A \<or> c = CHR 0x0B \<or> c = CHR 0x0C
      \<or> c = CHR 0x0D \<or> c = CHR 0xA0)"

definition hex_value :: "char \<Rightarrow> nat option" where
  "hex_value c =
     (let n = (of_char c :: nat) in
      if 48 \<le> n \<and> n \<le> 57 then Some (n - 48)
      else if 97 \<le> n \<and> n \<le> 102 then Some (n - 87)
      else if 65 \<le> n \<and> n \<le> 70 then Some (n - 55)
      else None)"

definition digit_value :: "nat \<Rightarrow> char \<Rightarrow> nat option" where
  "digit_value radix c =
     (case hex_value c of None \<Rightarrow> None
      | Some d \<Rightarrow> if d < radix then Some d else None)"

fun read_digits :: "nat \<Rightarrow> nat option \<Rightarrow> string \<Rightarrow> nat option" where
  "read_digits radix acc [] = acc"
| "read_digits radix acc (c # cs) =
     (case digit_value radix c of
        None \<Rightarrow> acc
      | Some d \<Rightarrow> read_digits radix (Some ((case acc of None \<Rightarrow> 0 | Some a \<Rightarrow> a) * radix + d)) cs)"

definition read_unsigned :: "string \<Rightarrow> nat option" where
  "read_unsigned s =
     (case s of
        c # x # rest \<Rightarrow>
          if c = CHR ''0'' \<and> (x = CHR ''x'' \<or> x = CHR ''X'') then read_digits 16 None rest
          else read_digits 10 None s
      | _ \<Rightarrow> read_digits 10 None s)"

definition parseInt_string :: "string \<Rightarrow> int option" where
  "parseInt_string s =
     (case dropWhile is_blank s of
        [] \<Rightarrow> None
      | c # cs \<Rightarrow>
          if c = CHR ''-''
          then map_option (\<lambda>n. - int n) (Option.bind (read_unsigned cs) to_double)
          else if c = CHR ''+'' then map_option int (Option.bind (read_unsigned cs) to_double)
          else map_option int (Option.bind (read_unsigned (c # cs)) to_double))"

definition parseInt :: "jsval \<Rightarrow> int option" where
  "parseInt v = parseInt_string (js_to_string v)"

section \<open>Errors\<close>

text \<open>
  The error classes of \<^verbatim>\<open>core/errors.js\<close>, the two built-in errors the code can raise
  (a failed \<^verbatim>\<open>assert\<close>, a property read on \<^verbatim>\<open>null\<close>) and errors of the operating
  system, which carry their code.
\<close>

datatype error =
    InvalidArgumentError string
  | NotSupportedError string
  | RequestAbortedError
  | RequestTimeoutError
  | ClientDestroyedError
  | ClientClosedError
  | SocketError string
  | InformationalError string
  | RequestContentLengthMismatchError
  | AssertionError
  | TypeError
  | SystemError string

text \<open>
  Modelled from the spec: \<^verbatim>\<open>core/errors.js\<close> is not among the sources; the stable codes
  are those the specification lists.
\<close>

fun err_code :: "error \<Rightarrow> string" where
  "err_code (InvalidArgumentError _) = ''UND_ERR_INVALID_ARG''"
| "err_code (NotSupportedError _) = ''UND_ERR_NOT_SUPPORTED''"
| "err_code RequestAbortedError = ''UND_ERR_ABORTED''"
| "err_code RequestTimeoutError = ''UND_ERR_TIMEOUT''"
| "err_code ClientDestroyedError = ''UND_ERR_DESTROYED''"
| "err_code ClientClosedError = ''UND_ERR_CLOSED''"
| "err_code (SocketError _) = ''UND_ERR_SOCKET''"
| "err_code (InformationalError _) = ''UND_ERR_INFO''"
| "err_code RequestContentLengthMismatchError = ''UND_ERR_CONTENT_LENGTH_MISMATCH''"
| "err_code AssertionError = ''ERR_ASSERTION''"
| "err_code TypeError = []"
| "err_code (SystemError c) = c"

section \<open>Request (lib/core/request.js)\<close>

text \<open>
  What a handler does inside its \<^verbatim>\<open>onConnect\<close>: nothing that matters here, a synchronous
  call of the abort callback it was handed, or an exception.
\<close>

datatype connect_reaction = Proceed | AbortNow "error option" | Raise error

record handler =
  is_object :: bool
  has_onError :: bool
  on_connect :: connect_reaction

datatype handler_event =
    OnConnect
  | OnHeaders int
  | OnData
  | OnUpgrade int
  | OnComplete
  | OnError error

text \<open>
  What a method of the request does to the outside, in order: a call of a handler method,
  a call of the stored \<^verbatim>\<open>kResume\<close> function, arming or clearing the request timer.
\<close>

datatype effect =
    Handler handler_event
  | ResumeCall
  | TimerSet int
  | TimerCleared

text \<open>A call either returns or throws; the state is the one reached either way.\<close>

datatype 's outcome = Done 's | Thrown error 's

fun state_of :: "'s outcome \<Rightarrow> 's" where
  "state_of (Done s) = s"
| "state_of (Thrown e s) = s"

record opts =
  o_path :: jsval
  o_method :: jsval
  o_body :: jsval
  o_headers :: "(string \<times> jsval) list option"
  o_idempotent :: "bool option"
  o_upgrade :: jsval
  o_requestTimeout :: jsval

text \<open>
  The fields the constructor sets. \<open>rid\<close> is the identity of the object (two requests built
  from equal options are still two objects); \<open>kTimeout\<close> and \<open>kResume\<close> say whether a timer
  is armed and whether a resume function is stored. \<open>upgrade\<close> is a value: the
  constructor of lib/core/request.js stores \<^verbatim>\<open>!!upgrade\<close>, a request class that keeps the
  protocol stores a string, and the client reads the field for its truth and writes it
  into the head of the request.
\<close>

record request =
  rid :: nat
  handler :: handler
  http_method :: string
  body :: jsval
  host :: jsval
  servername :: "string option"
  aborted :: bool
  upgrade :: jsval
  path :: string
  idempotent :: bool
  contentLength :: "int option"
  headers :: string
  kRequestTimeout :: "int option"
  kTimeout :: bool
  kResume :: bool

text \<open>
  The loop over \<^verbatim>\<open>Object.entries(headers)\<close>, on the pair (contentLength, headers):
  first the body of the loop for one entry, then the loop.
\<close>

definition add_header ::
  "string \<Rightarrow> jsval \<Rightarrow> int option \<times> string \<Rightarrow> error + (int option \<times> string)" where
  "add_header key val acc =
     (if typeof_object val then Inl (InvalidArgumentError (''invalid '' @ key @ '' header''))
      else if val = JUndefined then Inr acc
      else if fst acc = None \<and> length key = 14 \<and> toLowerCase key = ''content-length'' then
        (case parseInt val of
           None \<Rightarrow> Inl (InvalidArgumentError ''invalid content-length header'')
         | Some n \<Rightarrow> Inr (Some n, snd acc))
      else if length key = 17 \<and> toLowerCase key = ''transfer-encoding'' then
        Inl (InvalidArgumentError ''invalid transfer-encoding header'')
      else if length key = 10 \<and> toLowerCase key = ''connection'' then
        Inl (InvalidArgumentError ''invalid connection header'')
      else if length key = 10 \<and> toLowerCase key = ''keep-alive'' then
        Inl (InvalidArgumentError ''invalid keep-alive header'')
      else if length key = 7 \<and> toLowerCase key = ''upgrade'' then
        Inl (InvalidArgumentError ''invalid upgrade header'')
      else if length key = 6 \<and> toLowerCase key = ''expect'' then
        Inl (NotSupportedError ''expect header not supported'')
      else Inr (fst acc, snd acc @ key @ '': '' @ js_to_string val @ CRLF))"

fun add_headers ::
  "(string \<times> jsval) list \<Rightarrow> int option \<times> string \<Rightarrow> error + (int option \<times> string)" where
  "add_headers [] acc = Inr acc"
| "add_headers (kv # rest) acc =
     (case add_header (fst kv) (snd kv) acc of
        Inl e \<Rightarrow> Inl e
      | Inr acc' \<Rightarrow> add_headers rest acc')"

definition header_prop :: "(string \<times> jsval) list \<Rightarrow> string \<Rightarrow> jsval" where
  "header_prop hs k = (case map_of hs k of None \<Rightarrow> JUndefined | Some v \<Rightarrow> v)"

definition host_of :: "(string \<times> jsval) list option \<Rightarrow> jsval" where
  "host_of hs =
     (case hs of
        None \<Rightarrow> JUndefined
      | Some h \<Rightarrow> if truthy (header_prop h ''host'') then header_prop h ''host''
                  else header_prop h ''Host'')"

definition servername_of :: "(string \<Rightarrow> bool) \<Rightarrow> jsval \<Rightarrow> string option" where
  "servername_of isIP h =
     (if truthy h \<and> \<not> (case js_to_string h of c # _ \<Rightarrow> c = CHR ''['' | [] \<Rightarrow> False)
         \<and> \<not> (case h of JStr s \<Rightarrow> isIP s | _ \<Rightarrow> False)
      then Some (js_to_string h) else None)"

definition body_of :: "jsval \<Rightarrow> error + jsval" where
  "body_of b =
     (case b of
        JUndefined \<Rightarrow> Inr JNull
      | JNull \<Rightarrow> Inr JNull
      | JStream n \<Rightarrow> Inr (JStream n)
      | JBuffer s \<Rightarrow> Inr (if s \<noteq> [] then JBuffer s else JNull)
      | JStr s \<Rightarrow> Inr (if s \<noteq> [] then JBuffer s else JNull)
      | _ \<Rightarrow> Inl (InvalidArgumentError ''body must be a string, a Buffer or a Readable stream''))"

text \<open>
  The constructor. \<open>isIP\<close> stands for \<^verbatim>\<open>net.isIP\<close>, \<open>i\<close> is the identity of the new
  object and \<open>dflt\<close> the default request timeout (\<open>None\<close> when the caller passes none).
\<close>

definition Request_new ::
  "(string \<Rightarrow> bool) \<Rightarrow> nat \<Rightarrow> opts \<Rightarrow> int option \<Rightarrow> handler \<Rightarrow> error + request" where
  "Request_new isIP i opt dflt h =
     (case o_path opt of
        JStr (c # cs) \<Rightarrow>
          if c \<noteq> CHR ''/'' then Inl (InvalidArgumentError ''path must be a valid path'')
          else
          (case o_method opt of
             JStr m \<Rightarrow>
               if truthy (o_upgrade opt) \<and> (case o_upgrade opt of JStr _ \<Rightarrow> False | _ \<Rightarrow> True)
               then Inl (InvalidArgumentError ''upgrade must be a string'')
               else
               (let rt = (if is_nullish (o_requestTimeout opt) \<and> dflt \<noteq> None \<and> dflt \<noteq> Some 0
                          then (case dflt of Some d \<Rightarrow> JNum d | None \<Rightarrow> JUndefined)
                          else o_requestTimeout opt)
                in if \<not> is_nullish rt \<and> (case rt of JNum n \<Rightarrow> n < 0 | _ \<Rightarrow> True)
                   then Inl (InvalidArgumentError
                               ''requestTimeout must be a positive integer or zero'')
                   else
                   (case body_of (o_body opt) of
                      Inl e \<Rightarrow> Inl e
                    | Inr b \<Rightarrow>
                        (case add_headers (case o_headers opt of None \<Rightarrow> [] | Some hs \<Rightarrow> hs)
                                (None, []) of
                           Inl e \<Rightarrow> Inl e
                         | Inr (cl, hs) \<Rightarrow>
                             Inr \<lparr> rid = i, handler = h, http_method = m, body = b,
                                   host = host_of (o_headers opt),
                                   servername = servername_of isIP (host_of (o_headers opt)),
                                   aborted = False,
                                   upgrade = JBool (truthy (o_upgrade opt)),
                                   path = c # cs,
                                   idempotent =
                                     (case o_idempotent opt of
                                        None \<Rightarrow> m = ''HEAD'' \<or> m = ''GET''
                                      | Some b \<Rightarrow> b),
                                   contentLength = cl, headers = hs,
                                   kRequestTimeout = (case rt of JNum n \<Rightarrow> Some n | _ \<Rightarrow> None),
                                   kTimeout = False, kResume = False \<rparr>)))
           | _ \<Rightarrow> Inl (InvalidArgumentError ''method must be a string''))
      | _ \<Rightarrow> Inl (InvalidArgumentError ''path must be a valid path''))"

text \<open>The module function \<^verbatim>\<open>destroy(request)\<close>: clear the request timer.\<close>

definition destroy_request :: "request \<Rightarrow> effect list \<times> request" where
  "destroy_request r =
     (if kTimeout r then ([TimerCleared], r\<lparr>kTimeout := False\<rparr>) else ([], r))"

definition Request_onError :: "error \<Rightarrow> request \<Rightarrow> effect list \<times> request" where
  "Request_onError err r =
     (if aborted r then ([], r)
      else
        (let (fx, r1) = destroy_request (r\<lparr>aborted := True\<rparr>) in
         if kResume r1
         then (fx @ [ResumeCall, Handler (OnError err)], r1\<lparr>kResume := False\<rparr>)
         else (fx @ [Handler (OnError err)], r1)))"

definition Request_onConnect :: "request \<Rightarrow> (effect list \<times> request) outcome" where
  "Request_onConnect r =
     (if aborted r then Thrown AssertionError ([], r)
      else
        (let r1 = r\<lparr>kResume := True\<rparr>;
             (fx, r2) =
               (case kRequestTimeout r1 of
                  None \<Rightarrow> ([], r1)
                | Some t \<Rightarrow>
                    if t = 0 then ([], r1)
                    else ((if kTimeout r1 then [TimerCleared] else []) @ [TimerSet t],
                          r1\<lparr>kTimeout := True\<rparr>))
         in case on_connect (handler r2) of
              Proceed \<Rightarrow> Done (fx @ [Handler OnConnect], r2)
            | AbortNow eo \<Rightarrow>
                (let (fx', r3) =
                       Request_onError (case eo of None \<Rightarrow> RequestAbortedError | Some e \<Rightarrow> e) r2
                 in Done (fx @ [Handler OnConnect] @ fx', r3))
            | Raise e \<Rightarrow> Thrown e (fx @ [Handler OnConnect], r2)))"

definition Request_onHeaders :: "int \<Rightarrow> request \<Rightarrow> (effect list \<times> request) outcome" where
  "Request_onHeaders statusCode r =
     (if aborted r then Thrown AssertionError ([], r)
      else
        (let (fx, r1) = destroy_request r
         in Done (fx @ [Handler (OnHeaders statusCode)], r1)))"

definition Request_onBody :: "request \<Rightarrow> (effect list \<times> request) outcome" where
  "Request_onBody r =
     (if aborted r then Thrown AssertionError ([], r)
      else Done ([Handler OnData], r))"

definition Request_onUpgrade :: "int \<Rightarrow> request \<Rightarrow> (effect list \<times> request) outcome" where
  "Request_onUpgrade statusCode r =
     (if aborted r then Thrown AssertionError ([], r)
      else
        (let (fx, r1) = destroy_request r
         in Done (fx @ [Handler (OnUpgrade statusCode)], r1)))"

definition Request_onComplete :: "request \<Rightarrow> (effect list \<times> request) outcome" where
  "Request_onComplete r =
     (if aborted r then Thrown AssertionError ([], r)
      else
        (let (fx, r1) = destroy_request r
         in Done (fx @ [Handler OnComplete], r1)))"

text \<open>
  Everything that can reach a request object: the methods the client calls, the request
  timer firing (it calls \<^verbatim>\<open>onError\<close> with a timeout error; the timer only fires while
  armed) and the handler calling, at any later time, the abort callback it got in
  \<^verbatim>\<open>onConnect\<close>.
\<close>

datatype call =
    CallOnConnect
  | CallOnHeaders int
  | CallOnBody
  | CallOnUpgrade int
  | CallOnComplete
  | CallOnError error
  | TimerFires
  | CallAbort "error option"

fun Request_call :: "call \<Rightarrow> request \<Rightarrow> (effect list \<times> request) outcome" where
  "Request_call CallOnConnect r = Request_onConnect r"
| "Request_call (CallOnHeaders s) r = Request_onHeaders s r"
| "Request_call CallOnBody r = Request_onBody r"
| "Request_call (CallOnUpgrade s) r = Request_onUpgrade s r"
| "Request_call CallOnComplete r = Request_onComplete r"
| "Request_call (CallOnError e) r = Done (Request_onError e r)"
| "Request_call TimerFires r =
     (if kTimeout r then Done (Request_onError RequestTimeoutError r) else Done ([], r))"
| "Request_call (CallAbort eo) r =
     Done (Request_onError (case eo of None \<Rightarrow> RequestAbortedError | Some e \<Rightarrow> e) r)"

text \<open>A history of calls; a call that throws leaves the object as it was at the throw.\<close>

fun run_calls :: "call list \<Rightarrow> effect list \<times> request \<Rightarrow> effect list \<times> request" where
  "run_calls [] s = s"
| "run_calls (c # cs) (fx, r) =
     (let (fx', r') = state_of (Request_call c r) in run_calls cs (fx @ fx', r'))"

fun handler_events :: "effect list \<Rightarrow> handler_event list" where
  "handler_events [] = []"
| "handler_events (Handler e # fx) = e # handler_events fx"
| "handler_events (_ # fx) = handler_events fx"

fun is_OnError :: "handler_event \<Rightarrow> bool" where
  "is_OnError (OnError _) = True"
| "is_OnError _ = False"

text \<open>The handler calls delivered after the first \<^verbatim>\<open>onError\<close>.\<close>

definition after_first_error :: "handler_event list \<Rightarrow> handler_event list" where
  "after_first_error evs = drop 1 (dropWhile (\<lambda>e. \<not> is_OnError e) evs)"

section \<open>Client: state (the pipelining client)\<close>

subsection \<open>Arrays\<close>

text \<open>
  The queue is an array whose slots hold a request or \<^verbatim>\<open>null\<close>. Indices are JavaScript
  numbers, here integers: a read out of range gives \<^verbatim>\<open>undefined\<close>, \<^verbatim>\<open>splice\<close> counts a
  negative start from the end and clamps it, an assignment past the end extends the array
  and one at a negative index leaves the elements alone.
\<close>

definition js_index :: "'a option list \<Rightarrow> int \<Rightarrow> 'a option" where
  "js_index xs i = (if 0 \<le> i \<and> i < int (length xs) then xs ! nat i else None)"

definition js_start :: "nat \<Rightarrow> int \<Rightarrow> nat" where
  "js_start len i = (if i < 0 then nat (int len + i) else min (nat i) len)"

text \<open>\<^verbatim>\<open>xs.splice(i)\<close>: the array that is left and the removed elements.\<close>

definition splice_from :: "'a list \<Rightarrow> int \<Rightarrow> 'a list \<times> 'a list" where
  "splice_from xs i = (take (js_start (length xs) i) xs, drop (js_start (length xs) i) xs)"

text \<open>\<^verbatim>\<open>xs.splice(i, 1)\<close>: the array that is left.\<close>

definition splice_one :: "'a list \<Rightarrow> int \<Rightarrow> 'a list" where
  "splice_one xs i = take (js_start (length xs) i) xs @ drop (Suc (js_start (length xs) i)) xs"

text \<open>\<^verbatim>\<open>xs.splice(0, n)\<close>: the array that is left.\<close>

definition splice_head :: "'a list \<Rightarrow> int \<Rightarrow> 'a list" where
  "splice_head xs n = drop (nat n) xs"

definition js_set :: "'a option list \<Rightarrow> int \<Rightarrow> 'a option \<Rightarrow> 'a option list" where
  "js_set xs i v =
     (if i < 0 then xs
      else if i < int (length xs) then xs[nat i := v]
      else xs @ replicate (nat i - length xs) None @ [v])"

subsection \<open>Socket and parser\<close>

datatype timeout_type = TIMEOUT_HEADERS | TIMEOUT_BODY | TIMEOUT_IDLE | TIMEOUT_CONNECT

text \<open>
  The socket with the properties the client keeps on it and, since a parser lives and dies
  with its socket, the fields of its parser (prefixed \<open>p_\<close>). \<open>written\<close> lists the
  arguments of the \<^verbatim>\<open>socket.write\<close> calls. \<open>destroy_error\<close> is the error handed to
  \<^verbatim>\<open>destroy\<close>, which the platform emits later; \<open>on_close_destroyed\<close> says that
  \<^verbatim>\<open>client.destroy\<close> has registered its close listener.
\<close>

record socket =
  kConnecting :: bool
  kWriting :: bool
  kReset :: bool
  kNoRef :: bool
  kError :: "error option"
  sock_destroyed :: bool
  destroy_error :: "error option"
  sock_servername :: "string option"
  on_close_destroyed :: bool
  written :: "string list"
  p_timeoutType :: "timeout_type option"
  p_timeoutValue :: "int option"
  p_timeout :: bool
  p_statusCode :: "int option"
  p_shouldKeepAlive :: bool
  p_upgrade :: bool
  p_paused :: bool

text \<open>
  Modelled from the spec: \<^verbatim>\<open>util.destroy\<close> (core/util.js) is not among the sources.
  Destroying the socket marks it destroyed at once; its error and close events come later.
\<close>

definition util_destroy :: "error option \<Rightarrow> socket \<Rightarrow> socket" where
  "util_destroy err s =
     (if sock_destroyed s then s else s\<lparr>sock_destroyed := True, destroy_error := err\<rparr>)"

text \<open>\<^verbatim>\<open>Parser.setTimeout(value, type)\<close>; a timer is armed for a value other than 0.\<close>

definition parser_setTimeout :: "int \<Rightarrow> timeout_type \<Rightarrow> socket \<Rightarrow> socket" where
  "parser_setTimeout v ty s =
     (let s1 = s\<lparr>p_timeoutType := Some ty\<rparr> in
      if Some v \<noteq> p_timeoutValue s1
      then s1\<lparr>p_timeout := (v \<noteq> 0), p_timeoutValue := Some v\<rparr>
      else s1)"

text \<open>\<^verbatim>\<open>Parser.destroy()\<close>.\<close>

definition parser_destroy :: "socket \<Rightarrow> socket" where
  "parser_destroy s =
     s\<lparr>p_timeout := False, p_timeoutValue := None, p_timeoutType := None, p_paused := False\<rparr>"

subsection \<open>Client\<close>

datatype client_event =
    EConnect
  | EDisconnect error
  | EConnectionError error
  | EDrain
  | EWarning error
  | ECallback "error option"

text \<open>Functions handed to \<^verbatim>\<open>process.nextTick\<close>.\<close>

datatype task =
    TaskResume
  | TaskEmitDrain
  | TaskOnDestroyed
  | TaskCallback "error option"

record config =
  url_https :: bool
  kHostHeader :: string
  kConnectTimeoutValue :: int
  kKeepAliveDefaultTimeout :: int
  kKeepAliveMaxTimeout :: int
  kKeepAliveTimeoutThreshold :: int
  kBodyTimeout :: int
  kHeadersTimeout :: int
  kStrictContentLength :: bool

text \<open>
  The fields of the client. \<open>kOnDestroyed\<close> is the number of callbacks waiting, \<open>None\<close>
  once the list has been cleared. \<open>fresh\<close> is the identity the next request object gets,
  \<open>trace\<close> the handler calls made so far, each with the identity of its request,
  \<open>emitted\<close> the events and callbacks of the client itself and \<open>ticks\<close> the functions
  waiting for the next tick.
\<close>

record client =
  conf :: config
  kPipelining :: nat
  kKeepAliveTimeoutValue :: int
  kClosed :: bool
  kDestroyed :: bool
  kServerName :: "string option"
  kOnDestroyed :: "nat option"
  kResuming :: nat
  kNeedDrain :: nat
  kQueue :: "request option list"
  kRunningIdx :: int
  kPendingIdx :: int
  kSocket :: "socket option"
  fresh :: nat
  trace :: "(nat \<times> handler_event) list"
  emitted :: "client_event list"
  ticks :: "task list"

text \<open>The constructor, for options that pass its checks.\<close>

definition Client_new :: "config \<Rightarrow> nat \<Rightarrow> client" where
  "Client_new cf pipelining =
     \<lparr> conf = cf, kPipelining = pipelining,
       kKeepAliveTimeoutValue = kKeepAliveDefaultTimeout cf,
       kClosed = False, kDestroyed = False, kServerName = None, kOnDestroyed = Some 0,
       kResuming = 0, kNeedDrain = 0, kQueue = [], kRunningIdx = 0, kPendingIdx = 0,
       kSocket = None, fresh = 0, trace = [], emitted = [], ticks = [] \<rparr>"

definition kPending :: "client \<Rightarrow> int" where
  "kPending c = int (length (kQueue c)) - kPendingIdx c"

definition kRunning :: "client \<Rightarrow> int" where
  "kRunning c = kPendingIdx c - kRunningIdx c"

definition kSize :: "client \<Rightarrow> int" where
  "kSize c = int (length (kQueue c)) - kRunningIdx c"

definition kConnected :: "client \<Rightarrow> bool" where
  "kConnected c =
     (case kSocket c of None \<Rightarrow> False | Some s \<Rightarrow> \<not> kConnecting s \<and> \<not> sock_destroyed s)"

text \<open>\<^verbatim>\<open>client[kPipelining] || 1\<close>.\<close>

definition pipelining_or_1 :: "client \<Rightarrow> int" where
  "pipelining_or_1 c = (if kPipelining c = 0 then 1 else int (kPipelining c))"

definition kBusy :: "client \<Rightarrow> bool" where
  "kBusy c =
     ((case kSocket c of None \<Rightarrow> False | Some s \<Rightarrow> kReset s \<or> kWriting s)
      \<or> kSize c \<ge> pipelining_or_1 c
      \<or> kPending c > 0)"

text \<open>A handler call for the request with identity \<open>i\<close> is recorded in the trace.\<close>

definition record_effects :: "nat \<Rightarrow> effect list \<Rightarrow> client \<Rightarrow> client" where
  "record_effects i fx c = c\<lparr>trace := trace c @ map (Pair i) (handler_events fx)\<rparr>"

text \<open>
  \<^verbatim>\<open>request.onError(err)\<close> on a request object the client holds in hand: the object after
  the call and the client with the handler call recorded.
\<close>

definition fail_request :: "error \<Rightarrow> request \<Rightarrow> client \<Rightarrow> request \<times> client" where
  "fail_request err r c =
     (snd (Request_onError err r), record_effects (rid r) (fst (Request_onError err r)) c)"

text \<open>
  The loop \<^verbatim>\<open>for (...) { request.onError(err); assert(request.aborted) }\<close> over
  elements spliced out of the queue; a \<^verbatim>\<open>null\<close> element makes the call throw.
\<close>

fun fail_all :: "error \<Rightarrow> request option list \<Rightarrow> client \<Rightarrow> client outcome" where
  "fail_all err [] c = Done c"
| "fail_all err (None # rs) c = Thrown TypeError c"
| "fail_all err (Some r # rs) c = fail_all err rs (snd (fail_request err r c))"


section \<open>Client: operations\<close>

subsection \<open>The writer\<close>

definition expectsPayload :: "string \<Rightarrow> bool" where
  "expectsPayload m = (m = ''PUT'' \<or> m = ''POST'' \<or> m = ''PATCH'')"

definition isStream :: "jsval \<Rightarrow> bool" where
  "isStream b = (case b of JStream _ \<Rightarrow> True | _ \<Rightarrow> False)"

definition isBuffer :: "jsval \<Rightarrow> bool" where
  "isBuffer b = (case b of JBuffer _ \<Rightarrow> True | _ \<Rightarrow> False)"

text \<open>
  Modelled from the spec: \<^verbatim>\<open>util.bodyLength\<close> (core/util.js) is not among the sources.
  A missing body has length 0, a buffer its byte length, a stream its length once that is
  known and \<^verbatim>\<open>null\<close> before.
\<close>

definition bodyLength :: "jsval \<Rightarrow> int option" where
  "bodyLength b =
     (case b of
        JStream n \<Rightarrow> map_option int n
      | JBuffer s \<Rightarrow> Some (int (length s))
      | JStr s \<Rightarrow> Some (int (length s))
      | _ \<Rightarrow> Some 0)"

text \<open>The content length \<^verbatim>\<open>write\<close> settles on before it compares it with the header.\<close>

definition write_contentLength :: "request \<Rightarrow> int option" where
  "write_contentLength r =
     (let cl = (case bodyLength (body r) of None \<Rightarrow> contentLength r | Some n \<Rightarrow> Some n)
      in if cl = Some 0 \<and> \<not> expectsPayload (http_method r) then None else cl)"

text \<open>The head of the request up to the content length, with \<^verbatim>\<open>upgrade: ${upgrade}\<close>
  for a request whose \<^verbatim>\<open>upgrade\<close> is true of a condition.\<close>

definition request_header :: "client \<Rightarrow> request \<Rightarrow> string" where
  "request_header c r =
     (if truthy (upgrade r)
      then http_method r @ '' '' @ path r @ '' HTTP/1.1'' @ CRLF @ ''connection: upgrade'' @ CRLF
           @ ''upgrade: '' @ js_to_string (upgrade r) @ CRLF
      else if kPipelining c \<noteq> 0
      then http_method r @ '' '' @ path r @ '' HTTP/1.1'' @ CRLF @ ''connection: keep-alive'' @ CRLF
      else http_method r @ '' '' @ path r @ '' HTTP/1.1'' @ CRLF @ ''connection: close'' @ CRLF)
     @ (if \<not> truthy (host r) then kHostHeader (conf c) else [])
     @ headers r"

definition socket_write :: "string \<Rightarrow> socket \<Rightarrow> socket" where
  "socket_write d s = s\<lparr>written := written s @ [d]\<rparr>"

text \<open>
  The three cases of the body at the end of \<^verbatim>\<open>write\<close>. For a stream the writer sets
  \<open>kWriting\<close> and registers its listeners; the chunks arrive in later events, which are
  outside this model.
\<close>

definition write_body ::
  "client \<Rightarrow> request \<Rightarrow> int option \<Rightarrow> string \<Rightarrow> socket \<Rightarrow> socket outcome" where
  "write_body c r cl header s =
     (if \<not> truthy (body r) then
        (if cl = Some 0
         then Done (socket_write (header @ ''content-length: 0'' @ CRLF @ CRLF @ CRLF) s)
         else if cl = None then Done (socket_write (header @ CRLF) s)
         else Thrown AssertionError s)
      else if isBuffer (body r) then
        (case cl of
           None \<Rightarrow> Thrown AssertionError s
         | Some n \<Rightarrow>
             (let s1 = socket_write CRLF
                        (socket_write (js_to_string (body r))
                          (socket_write (header @ ''content-length: '' @ show_number n @ CRLF @ CRLF) s))
              in Done (if \<not> expectsPayload (http_method r) then s1\<lparr>kReset := True\<rparr> else s1)))
      else
        (let s1 = s\<lparr>kWriting := True\<rparr> in
         if \<not> isStream (body r) then Thrown AssertionError s1
         else if \<not> (cl \<noteq> Some 0 \<or> kRunning c = 0) then Thrown AssertionError s1
         else Done s1))"

text \<open>
  Modelled from the spec: the request class this revision of the client constructs (two
  arguments, \<^verbatim>\<open>onConnect(abort)\<close>, \<^verbatim>\<open>onData\<close>) is not among the sources;
  lib/core/request.js is the revision at hand. \<^verbatim>\<open>request.onConnect(abort)\<close> asserts that
  the request is not aborted and hands the client's abort callback to the handler. The
  callback is the one \<^verbatim>\<open>write\<close> defines: unless the request is aborted already it calls
  \<^verbatim>\<open>request.onError\<close> and destroys the socket with an informational error. The
  \<^verbatim>\<open>try\<close> around the call turns an exception into \<^verbatim>\<open>request.onError(err)\<close>.
\<close>

definition connect_request :: "request \<Rightarrow> client \<Rightarrow> request \<times> client" where
  "connect_request r c =
     (if aborted r then fail_request AssertionError r c
      else
        (let c1 = record_effects (rid r) [Handler OnConnect] c in
         case on_connect (handler r) of
           Proceed \<Rightarrow> (r, c1)
         | AbortNow eo \<Rightarrow>
             (let rc = fail_request (case eo of None \<Rightarrow> RequestAbortedError | Some e \<Rightarrow> e) r c1
              in (fst rc,
                  (snd rc)\<lparr>kSocket :=
                     map_option (util_destroy (Some (InformationalError ''aborted'')))
                       (kSocket (snd rc))\<rparr>))
         | Raise e \<Rightarrow> fail_request e r c1))"

text \<open>
  The second half of \<^verbatim>\<open>write\<close>, from the check of the method on: the flags on the
  socket, the header and the body. A client without a socket makes the first use of the
  socket throw.
\<close>

definition write_socket ::
  "request \<Rightarrow> int option \<Rightarrow> client \<Rightarrow> (bool \<times> request \<times> client) outcome" where
  "write_socket r cl c =
     (case kSocket c of
        None \<Rightarrow> Thrown TypeError (False, r, c)
      | Some s \<Rightarrow>
          (case write_body c r cl (request_header c r)
                  (if truthy (upgrade r) \<or> http_method r = ''CONNECT'' \<or> http_method r = ''HEAD''
                   then s\<lparr>kReset := True\<rparr> else s) of
             Done s' \<Rightarrow> Done (True, r, c\<lparr>kSocket := Some s'\<rparr>)
           | Thrown e s' \<Rightarrow> Thrown e (False, r, c\<lparr>kSocket := Some s'\<rparr>)))"

text \<open>
  \<^verbatim>\<open>write(client, request)\<close>: the value it returns, the request object after the call and
  the client.
\<close>

definition write_req :: "request \<Rightarrow> client \<Rightarrow> (bool \<times> request \<times> client) outcome" where
  "write_req r c =
     (if contentLength r \<noteq> None \<and> contentLength r \<noteq> write_contentLength r then
        (if kStrictContentLength (conf c)
         then Done (False, fail_request RequestContentLengthMismatchError r c)
         else
           (let rc = connect_request r
                       (c\<lparr>emitted := emitted c @ [EWarning RequestContentLengthMismatchError]\<rparr>)
            in if aborted (fst rc) then Done (False, rc)
               else write_socket (fst rc) (write_contentLength r) (snd rc)))
      else
        (let rc = connect_request r c
         in if aborted (fst rc) then Done (False, rc)
            else write_socket (fst rc) (write_contentLength r) (snd rc)))"

subsection \<open>connect and destroy\<close>

text \<open>
  \<^verbatim>\<open>connect(client)\<close>. Modelled from the spec: the connector (core/connect.js) is not
  among the sources; the socket it returns is a fresh one, for a TLS origin with the
  server name it was asked for.
\<close>

definition new_socket :: "client \<Rightarrow> socket" where
  "new_socket c =
     \<lparr> kConnecting = True, kWriting = False, kReset = False, kNoRef = False, kError = None,
       sock_destroyed = False, destroy_error = None,
       sock_servername = (if url_https (conf c) then kServerName c else None),
       on_close_destroyed = False, written = [],
       p_timeoutType = None, p_timeoutValue = None, p_timeout = False, p_statusCode = None,
       p_shouldKeepAlive = False, p_upgrade = False, p_paused = False \<rparr>"

definition connect :: "client \<Rightarrow> client outcome" where
  "connect c =
     (if kSocket c \<noteq> None then Thrown AssertionError c
      else Done (c\<lparr>kSocket := Some (new_socket c)\<rparr>))"

text \<open>
  \<^verbatim>\<open>client.destroy(err, callback)\<close> on a client that is not destroyed yet, up to its last
  statement, the call of \<^verbatim>\<open>resume\<close>.
\<close>

definition destroy_core :: "error option \<Rightarrow> client \<Rightarrow> client outcome" where
  "destroy_core err c =
     (let e = (case err of None \<Rightarrow> ClientDestroyedError | Some x \<Rightarrow> x);
          sp = splice_from (kQueue c) (kPendingIdx c)
      in case fail_all e (snd sp) (c\<lparr>kQueue := fst sp\<rparr>) of
           Thrown x c1 \<Rightarrow> Thrown x c1
         | Done c1 \<Rightarrow>
             (let c2 = c1\<lparr>kClosed := True, kDestroyed := True\<rparr> in
              case kOnDestroyed c2 of
                None \<Rightarrow> Thrown TypeError c2
              | Some n \<Rightarrow>
                  (let c3 = c2\<lparr>kOnDestroyed := Some (Suc n)\<rparr> in
                   Done (case kSocket c3 of
                           None \<Rightarrow> c3\<lparr>ticks := ticks c3 @ [TaskOnDestroyed]\<rparr>
                         | Some s \<Rightarrow>
                             c3\<lparr>kSocket :=
                                  Some (util_destroy (Some e)
                                          (s\<lparr>on_close_destroyed := True\<rparr>))\<rparr>))))"

text \<open>The branch of \<^verbatim>\<open>destroy\<close> for a client that is destroyed already.\<close>

definition destroy_again :: "client \<Rightarrow> client" where
  "destroy_again c =
     (case kOnDestroyed c of
        Some n \<Rightarrow> c\<lparr>kOnDestroyed := Some (Suc n)\<rparr>
      | None \<Rightarrow> c\<lparr>ticks := ticks c @ [TaskCallback None]\<rparr>)"


subsection \<open>The scheduler\<close>

text \<open>
  One pass through the body of the \<^verbatim>\<open>while (true)\<close> loop of \<^verbatim>\<open>_resume\<close> ends in
  \<^verbatim>\<open>continue\<close>, in \<^verbatim>\<open>return\<close> or in an exception. The body is cut into the pieces below,
  each of which goes on with the next.
\<close>

datatype 's step = Continue 's | Return 's | Throw error 's

definition update_request :: "int \<Rightarrow> request \<Rightarrow> client \<Rightarrow> client" where
  "update_request i r c =
     (if 0 \<le> i \<and> i < int (length (kQueue c))
      then c\<lparr>kQueue := (kQueue c)[nat i := Some r]\<rparr> else c)"

text \<open>
  A stream body known to be empty is taken off the request (the code leaves listeners on
  the stream, which are outside this model).
\<close>

definition drop_empty_stream :: "request \<Rightarrow> request" where
  "drop_empty_stream r =
     (if isStream (body r) \<and> bodyLength (body r) = Some 0 then r\<lparr>body := JNull\<rparr> else r)"

text \<open>
  From the check of idempotence to the end of the body, for the request \<open>r\<close> read from
  the slot at \<open>kPendingIdx\<close>. A request object that the code changes is written back to
  its slot.
\<close>

definition resume_write :: "request \<Rightarrow> client \<Rightarrow> client step" where
  "resume_write r c =
     (if kRunning c > 0 \<and> \<not> idempotent r then Return c
      else if kRunning c > 0 \<and> (truthy (upgrade r) \<or> http_method r = ''CONNECT'') then Return c
      else
        (let r1 = drop_empty_stream r;
             c1 = update_request (kPendingIdx c) r1 c
         in if kRunning c1 > 0 \<and> isStream (body r1) then Return c1
            else if aborted r1
            then Continue (c1\<lparr>kQueue := splice_one (kQueue c1) (kPendingIdx c1)\<rparr>)
            else
              (case write_req r1 c1 of
                 Done w \<Rightarrow>
                   (let c2 = update_request (kPendingIdx c1) (fst (snd w)) (snd (snd w)) in
                    if fst w then Continue (c2\<lparr>kPendingIdx := kPendingIdx c2 + 1\<rparr>)
                    else Continue (c2\<lparr>kQueue := splice_one (kQueue c2) (kPendingIdx c2)\<rparr>))
               | Thrown e w \<Rightarrow>
                   Throw e (update_request (kPendingIdx c1) (fst (snd w)) (snd (snd w))))))"

text \<open>
  From \<^verbatim>\<open>if (!socket)\<close> on. \<open>so\<close> is the constant \<^verbatim>\<open>socket\<close> read at the start of the
  pass, \<open>ro\<close> the request read from the queue (\<open>None\<close> for an empty slot, whose first
  property read throws).
\<close>

definition resume_socket :: "socket option \<Rightarrow> request option \<Rightarrow> client \<Rightarrow> client step" where
  "resume_socket so ro c =
     (case so of
        None \<Rightarrow> (case connect c of Done c' \<Rightarrow> Continue c' | Thrown e c' \<Rightarrow> Throw e c')
      | Some s \<Rightarrow>
          if sock_destroyed s \<or> kConnecting s \<or> kWriting s \<or> kReset s then Return c
          else (case ro of None \<Rightarrow> Throw TypeError c | Some r \<Rightarrow> resume_write r c))"

text \<open>The check of the server name, for a TLS origin.\<close>

definition resume_servername ::
  "socket option \<Rightarrow> request option \<Rightarrow> client \<Rightarrow> client step" where
  "resume_servername so ro c =
     (if url_https (conf c) then
        (case ro of
           None \<Rightarrow> Throw TypeError c
         | Some r \<Rightarrow>
             if kServerName c \<noteq> servername r then
               (if kRunning c > 0 then Return c
                else
                  (let c1 = c\<lparr>kServerName := servername r\<rparr> in
                   case so of
                     None \<Rightarrow> resume_socket so ro c1
                   | Some s \<Rightarrow>
                       if sock_servername s \<noteq> servername r
                       then Return (c1\<lparr>kSocket :=
                              map_option
                                (util_destroy (Some (InformationalError ''servername changed'')))
                                (kSocket c1)\<rparr>)
                       else resume_socket so ro c1))
             else resume_socket so ro c)
      else resume_socket so ro c)"

text \<open>From the check of \<^verbatim>\<open>kPending\<close> to the read of the next request.\<close>

definition resume_pick :: "socket option \<Rightarrow> client \<Rightarrow> client step" where
  "resume_pick so c =
     (if kPending c = 0 then Return c
      else if kRunning c \<ge> pipelining_or_1 c then Return c
      else resume_servername so (js_index (kQueue c) (kPendingIdx c)) c)"

text \<open>\<^verbatim>\<open>emitDrain(client)\<close>.\<close>

definition emitDrain :: "client \<Rightarrow> client" where
  "emitDrain c = c\<lparr>kNeedDrain := 0, emitted := emitted c @ [EDrain]\<rparr>"

text \<open>The bookkeeping of \<open>kNeedDrain\<close>.\<close>

definition resume_drain :: "bool \<Rightarrow> socket option \<Rightarrow> client \<Rightarrow> client step" where
  "resume_drain sync so c =
     (if kBusy c then resume_pick so (c\<lparr>kNeedDrain := 2\<rparr>)
      else if kNeedDrain c = 2 then
        (if sync then Continue (c\<lparr>kNeedDrain := 1, ticks := ticks c @ [TaskEmitDrain]\<rparr>)
         else Continue (emitDrain c))
      else resume_pick so c)"

text \<open>
  The block \<^verbatim>\<open>if (socket) { ... }\<close>: reference counting and the timer of the parser. The
  requests of this revision carry no \<^verbatim>\<open>headersTimeout\<close> of their own, so the client's
  value is used; the head request is read all the same.
\<close>

definition resume_timers :: "client \<Rightarrow> socket \<Rightarrow> socket outcome" where
  "resume_timers c s =
     (let s1 = (if kSize c = 0 then (if \<not> kNoRef s then s\<lparr>kNoRef := True\<rparr> else s)
                else if kNoRef s then s\<lparr>kNoRef := False\<rparr> else s)
      in if kConnecting s1 then
           Done (if p_timeoutType s1 \<noteq> Some TIMEOUT_CONNECT
                 then parser_setTimeout (kConnectTimeoutValue (conf c)) TIMEOUT_CONNECT s1
                 else s1)
         else if kSize c = 0 then
           Done (if p_timeoutType s1 \<noteq> Some TIMEOUT_IDLE
                 then parser_setTimeout (kKeepAliveTimeoutValue c) TIMEOUT_IDLE s1
                 else s1)
         else if kRunning c > 0 \<and> (case p_statusCode s1 of None \<Rightarrow> True | Some n \<Rightarrow> n < 200) then
           (if p_timeoutType s1 \<noteq> Some TIMEOUT_HEADERS then
              (case js_index (kQueue c) (kRunningIdx c) of
                 None \<Rightarrow> Thrown TypeError s1
               | Some r \<Rightarrow> Done (parser_setTimeout (kHeadersTimeout (conf c)) TIMEOUT_HEADERS s1))
            else Done s1)
         else Done s1)"

text \<open>
  The whole body. \<^verbatim>\<open>client.destroy(util.nop)\<close> ends with a call of \<^verbatim>\<open>resume\<close>, which
  returns at once because \<^verbatim>\<open>_resume\<close> only runs with \<open>kResuming\<close> set to 2.
\<close>

definition resume_step :: "bool \<Rightarrow> client \<Rightarrow> client step" where
  "resume_step sync c =
     (if kDestroyed c then (if kPending c = 0 then Return c else Throw AssertionError c)
      else if kClosed c \<and> kSize c = 0 then
        (case destroy_core None c of Done c' \<Rightarrow> Continue c' | Thrown e c' \<Rightarrow> Throw e c')
      else
        (case kSocket c of
           None \<Rightarrow> resume_drain sync None c
         | Some s \<Rightarrow>
             (case resume_timers c s of
                Thrown e s' \<Rightarrow> Throw e (c\<lparr>kSocket := Some s'\<rparr>)
              | Done s' \<Rightarrow> resume_drain sync (Some s') (c\<lparr>kSocket := Some s'\<rparr>))))"

text \<open>What decreases with every \<^verbatim>\<open>continue\<close>.\<close>

definition resume_measure :: "client \<Rightarrow> nat" where
  "resume_measure c =
     (if kDestroyed c then 0 else 1) + 4 * nat (kPending c)
     + (if kSocket c = None then 2 else 0) + (if kNeedDrain c = 2 then 1 else 0)"


subsection \<open>Termination of the scheduler\<close>

text \<open>
  Two clients agree on everything the scheduler's progress depends on; handler calls,
  events and what is written to the socket may differ.
\<close>

definition same_queue :: "client \<Rightarrow> client \<Rightarrow> bool" where
  "same_queue c c' =
     (kDestroyed c' = kDestroyed c \<and> kClosed c' = kClosed c \<and> kQueue c' = kQueue c
      \<and> kPendingIdx c' = kPendingIdx c \<and> kRunningIdx c' = kRunningIdx c
      \<and> kNeedDrain c' = kNeedDrain c \<and> kPipelining c' = kPipelining c
      \<and> kResuming c' = kResuming c \<and> conf c' = conf c
      \<and> (kSocket c' = None \<longleftrightarrow> kSocket c = None))"

lemma record_effects_frame [simp]:
  "kDestroyed (record_effects i fx c) = kDestroyed c"
  "kClosed (record_effects i fx c) = kClosed c"
  "kQueue (record_effects i fx c) = kQueue c"
  "kPendingIdx (record_effects i fx c) = kPendingIdx c"
  "kRunningIdx (record_effects i fx c) = kRunningIdx c"
  "kNeedDrain (record_effects i fx c) = kNeedDrain c"
  "kSocket (record_effects i fx c) = kSocket c"
  "kPipelining (record_effects i fx c) = kPipelining c"
  "kResuming (record_effects i fx c) = kResuming c"
  "kOnDestroyed (record_effects i fx c) = kOnDestroyed c"
  "conf (record_effects i fx c) = conf c"
  "kServerName (record_effects i fx c) = kServerName c"
  "ticks (record_effects i fx c) = ticks c"
  by (simp_all add: record_effects_def)

lemma fail_request_frame [simp]:
  "kDestroyed (snd (fail_request e r c)) = kDestroyed c"
  "kClosed (snd (fail_request e r c)) = kClosed c"
  "kQueue (snd (fail_request e r c)) = kQueue c"
  "kPendingIdx (snd (fail_request e r c)) = kPendingIdx c"
  "kRunningIdx (snd (fail_request e r c)) = kRunningIdx c"
  "kNeedDrain (snd (fail_request e r c)) = kNeedDrain c"
  "kSocket (snd (fail_request e r c)) = kSocket c"
  "kPipelining (snd (fail_request e r c)) = kPipelining c"
  "kResuming (snd (fail_request e r c)) = kResuming c"
  "kOnDestroyed (snd (fail_request e r c)) = kOnDestroyed c"
  "conf (snd (fail_request e r c)) = conf c"
  "kServerName (snd (fail_request e r c)) = kServerName c"
  "ticks (snd (fail_request e r c)) = ticks c"
  by (simp_all add: fail_request_def)

lemma same_queue_refl [simp]: "same_queue c c"
  by (simp add: same_queue_def)

lemma same_queue_trans: "same_queue a b \<Longrightarrow> same_queue b c \<Longrightarrow> same_queue a c"
  by (simp add: same_queue_def)

lemma fail_request_same [simp]: "same_queue c (snd (fail_request e r c))"
  by (simp add: same_queue_def)

lemma fail_all_same: "same_queue c (state_of (fail_all e rs c))"
proof (induction e rs c rule: fail_all.induct)
  case (3 err r rs c)
  have "same_queue c (snd (fail_request err r c))" by simp
  from same_queue_trans [OF this 3] show ?case by simp
qed simp_all

lemma connect_request_same: "same_queue c (snd (connect_request r c))"
proof (cases "on_connect (handler r)")
  case Proceed
  then show ?thesis by (simp add: connect_request_def same_queue_def Let_def)
next
  case (AbortNow eo)
  then show ?thesis by (simp add: connect_request_def same_queue_def Let_def)
next
  case (Raise e)
  then show ?thesis by (simp add: connect_request_def same_queue_def Let_def)
qed

lemma same_queue_emitted [simp]: "same_queue c (c\<lparr>emitted := x\<rparr>)"
  by (simp add: same_queue_def)

lemma same_queue_socket: "kSocket c \<noteq> None \<Longrightarrow> same_queue c (c\<lparr>kSocket := Some s\<rparr>)"
  by (simp add: same_queue_def)

lemma write_socket_same: "same_queue c (snd (snd (state_of (write_socket r cl c))))"
  by (cases "kSocket c")
     (auto simp: write_socket_def same_queue_socket split: outcome.splits)

lemma write_req_same: "same_queue c (snd (snd (state_of (write_req r c))))"
proof -
  have a: "same_queue c (snd (snd (state_of (write_socket r' cl (snd (connect_request r c))))))"
    for r' cl
    using same_queue_trans [OF connect_request_same write_socket_same] .
  have "same_queue c (c\<lparr>emitted := x\<rparr>)" for x by simp
  from same_queue_trans [OF this connect_request_same]
  have b0: "same_queue c (snd (connect_request r (c\<lparr>emitted := x\<rparr>)))" for x .
  from same_queue_trans [OF b0 write_socket_same]
  have b: "same_queue c
      (snd (snd (state_of (write_socket r' cl (snd (connect_request r (c\<lparr>emitted := x\<rparr>)))))))"
    for r' cl x .
  show ?thesis
    using a b b0 connect_request_same [of c r]
    by (simp add: write_req_def Let_def)
qed


lemma same_queue_measure: "same_queue c c' \<Longrightarrow> resume_measure c' = resume_measure c"
  by (simp add: same_queue_def resume_measure_def kPending_def)

lemma update_request_frame [simp]:
  "kDestroyed (update_request i r c) = kDestroyed c"
  "kClosed (update_request i r c) = kClosed c"
  "length (kQueue (update_request i r c)) = length (kQueue c)"
  "kPendingIdx (update_request i r c) = kPendingIdx c"
  "kRunningIdx (update_request i r c) = kRunningIdx c"
  "kNeedDrain (update_request i r c) = kNeedDrain c"
  "kSocket (update_request i r c) = kSocket c"
  "kPipelining (update_request i r c) = kPipelining c"
  "kResuming (update_request i r c) = kResuming c"
  "conf (update_request i r c) = conf c"
  by (simp_all add: update_request_def)

lemma update_request_getters [simp]:
  "kPending (update_request i r c) = kPending c"
  "kRunning (update_request i r c) = kRunning c"
  "kSize (update_request i r c) = kSize c"
  "resume_measure (update_request i r c) = resume_measure c"
  by (simp_all add: kPending_def kRunning_def kSize_def resume_measure_def)

lemma length_splice_one:
  "0 \<le> i \<Longrightarrow> i < int (length xs) \<Longrightarrow> length (splice_one xs i) = length xs - 1"
  by (auto simp: splice_one_def js_start_def)

lemma js_index_Some: "js_index xs i = Some x \<Longrightarrow> 0 \<le> i \<and> i < int (length xs)"
  by (auto simp: js_index_def split: if_splits)

lemma measure_drop_one:
  assumes "0 \<le> kPendingIdx c" "kPendingIdx c < int (length (kQueue c))"
  shows "resume_measure (c\<lparr>kQueue := splice_one (kQueue c) (kPendingIdx c)\<rparr>) + 4
           \<le> resume_measure c"
    and "resume_measure (c\<lparr>kPendingIdx := kPendingIdx c + 1\<rparr>) + 4 \<le> resume_measure c"
  using assms by (auto simp: resume_measure_def kPending_def length_splice_one)

lemma resume_write_measure:
  assumes "resume_write r c = Continue c'"
    and "js_index (kQueue c) (kPendingIdx c) = Some r"
  shows "resume_measure c' + 4 \<le> resume_measure c"
proof -
  from js_index_Some [OF assms(2)]
  have rng: "0 \<le> kPendingIdx c" "kPendingIdx c < int (length (kQueue c))" by auto
  define r1 where "r1 = drop_empty_stream r"
  define c1 where "c1 = update_request (kPendingIdx c) r1 c"
  define w where "w = state_of (write_req r1 c1)"
  define c2 where "c2 = update_request (kPendingIdx c1) (fst (snd w)) (snd (snd w))"
  have m1: "resume_measure c1 = resume_measure c" by (simp add: c1_def)
  have r1: "0 \<le> kPendingIdx c1" "kPendingIdx c1 < int (length (kQueue c1))"
    using rng by (simp_all add: c1_def)
  have sq: "same_queue c1 (snd (snd w))" unfolding w_def by (rule write_req_same)
  then have m2: "resume_measure c2 = resume_measure c"
    using m1 by (simp add: c2_def same_queue_measure)
  have r2: "0 \<le> kPendingIdx c2" "kPendingIdx c2 < int (length (kQueue c2))"
    using r1 sq by (simp_all add: c2_def same_queue_def)
  from assms(1) consider
      (a) "c' = c1\<lparr>kQueue := splice_one (kQueue c1) (kPendingIdx c1)\<rparr>"
    | (b) "c' = c2\<lparr>kPendingIdx := kPendingIdx c2 + 1\<rparr>"
    | (c) "c' = c2\<lparr>kQueue := splice_one (kQueue c2) (kPendingIdx c2)\<rparr>"
    unfolding resume_write_def Let_def r1_def [symmetric] c1_def [symmetric]
    by (auto simp: w_def c2_def split: if_splits outcome.splits)
  then show ?thesis
  proof cases
    case a
    with measure_drop_one(1) [OF r1] m1 show ?thesis by simp
  next
    case b
    with measure_drop_one(2) [OF r2] m2 show ?thesis by simp
  next
    case c
    with measure_drop_one(1) [OF r2] m2 show ?thesis by simp
  qed
qed

lemma resume_socket_measure:
  assumes "resume_socket so ro c = Continue c'"
    and "ro = js_index (kQueue c) (kPendingIdx c)"
  shows "resume_measure c' + 2 \<le> resume_measure c"
proof (cases so)
  case None
  with assms(1) have "kSocket c = None" "c' = c\<lparr>kSocket := Some (new_socket c)\<rparr>"
    by (auto simp: resume_socket_def connect_def split: if_splits)
  then show ?thesis by (simp add: resume_measure_def kPending_def)
next
  case (Some s)
  with assms(1) obtain r where "ro = Some r" "resume_write r c = Continue c'"
    by (auto simp: resume_socket_def split: if_splits option.splits)
  with resume_write_measure [of r c c'] assms(2) show ?thesis by simp
qed

lemma resume_servername_measure:
  assumes "resume_servername so ro c = Continue c'"
    and "ro = js_index (kQueue c) (kPendingIdx c)"
  shows "resume_measure c' + 2 \<le> resume_measure c"
proof -
  have a: "resume_socket so ro (c\<lparr>kServerName := x\<rparr>) = Continue c'
       \<Longrightarrow> resume_measure c' + 2 \<le> resume_measure c" for x
    using resume_socket_measure [of so ro "c\<lparr>kServerName := x\<rparr>" c'] assms(2)
    by (simp add: resume_measure_def kPending_def)
  from assms(1) consider "resume_socket so ro c = Continue c'"
    | x where "resume_socket so ro (c\<lparr>kServerName := x\<rparr>) = Continue c'"
    by (auto simp: resume_servername_def Let_def split: if_splits option.splits)
  then show ?thesis
    using a resume_socket_measure [OF _ assms(2)] by cases auto
qed

lemma resume_pick_measure:
  assumes "resume_pick so c = Continue c'"
  shows "resume_measure c' + 2 \<le> resume_measure c"
  using assms resume_servername_measure [of so _ c c']
  by (auto simp: resume_pick_def split: if_splits)

lemma resume_drain_measure:
  assumes "resume_drain sync so c = Continue c'"
  shows "resume_measure c' < resume_measure c"
proof -
  have a: "resume_pick so (c\<lparr>kNeedDrain := 2\<rparr>) = Continue c'
      \<Longrightarrow> resume_measure c' < resume_measure c"
    using resume_pick_measure [of so "c\<lparr>kNeedDrain := 2\<rparr>" c']
    by (simp add: resume_measure_def kPending_def split: if_splits)
  from assms show ?thesis
    using a resume_pick_measure [of so c c']
    by (auto simp: resume_drain_def emitDrain_def resume_measure_def kPending_def
        split: if_splits)
qed

lemma splice_from_pending:
  "int (length (fst (splice_from xs i))) - i \<le> max 0 (int (length xs) - i)"
  by (auto simp: splice_from_def js_start_def)

lemma destroy_core_measure:
  assumes "destroy_core err c = Done c'" and "\<not> kDestroyed c"
  shows "resume_measure c' < resume_measure c"
proof -
  define e where "e = (case err of None \<Rightarrow> ClientDestroyedError | Some x \<Rightarrow> x)"
  define c0 where "c0 = c\<lparr>kQueue := fst (splice_from (kQueue c) (kPendingIdx c))\<rparr>"
  define c1 where "c1 = state_of (fail_all e (snd (splice_from (kQueue c) (kPendingIdx c))) c0)"
  have sq: "same_queue c0 c1" unfolding c1_def by (rule fail_all_same)
  have p0: "nat (kPending c0) \<le> nat (kPending c)"
    using splice_from_pending [of "kQueue c" "kPendingIdx c"]
    by (simp add: c0_def kPending_def)
  from assms(1) have d: "kDestroyed c'" "kNeedDrain c' = kNeedDrain c1"
    "kQueue c' = kQueue c1" "kPendingIdx c' = kPendingIdx c1"
    "(kSocket c' = None) = (kSocket c1 = None)"
    unfolding destroy_core_def Let_def e_def [symmetric] c0_def [symmetric]
    by (auto simp: c1_def split: outcome.splits option.splits)
  with sq p0 assms(2) show ?thesis
    by (simp add: resume_measure_def kPending_def same_queue_def c0_def)
qed

lemma resume_step_measure:
  assumes "resume_step sync c = Continue c'"
  shows "resume_measure c' < resume_measure c"
proof -
  have a: "kSocket c = Some s \<Longrightarrow> resume_drain sync so (c\<lparr>kSocket := Some s'\<rparr>) = Continue c'
      \<Longrightarrow> resume_measure c' < resume_measure c" for s s' so
    using resume_drain_measure [of sync so "c\<lparr>kSocket := Some s'\<rparr>" c']
    by (simp add: resume_measure_def kPending_def)
  from assms show ?thesis
    using a destroy_core_measure [of None c c'] resume_drain_measure [of sync None c c']
    by (auto simp: resume_step_def split: if_splits outcome.splits option.splits)
qed

text \<open>
  The loop \<^verbatim>\<open>_resume(client, sync)\<close>. It ends for every client: each \<^verbatim>\<open>continue\<close>
  lowers \<open>resume_measure\<close>.
\<close>

function resume_loop :: "bool \<Rightarrow> client \<Rightarrow> client outcome" where
  "resume_loop sync c =
     (case resume_step sync c of
        Continue c' \<Rightarrow> resume_loop sync c'
      | Return c' \<Rightarrow> Done c'
      | Throw e c' \<Rightarrow> Thrown e c')"
  by pat_completeness auto
termination
proof (relation "measure (\<lambda>p. resume_measure (snd p))")
  show "wf (measure (\<lambda>p. resume_measure (snd p)))" by simp
next
  fix sync c c'
  assume "resume_step sync c = Continue c'"
  from resume_step_measure [OF this]
  show "((sync, c'), (sync, c)) \<in> measure (\<lambda>p. resume_measure (snd p))" by simp
qed

declare resume_loop.simps [simp del]


subsection \<open>resume, dispatch, close, destroy\<close>

text \<open>
  \<^verbatim>\<open>resume(client, sync)\<close>. An exception leaves \<open>kResuming\<close> at 2, as in the code, which
  resets it after the loop and not in a \<^verbatim>\<open>finally\<close>.
\<close>

definition compact :: "client \<Rightarrow> client" where
  "compact c =
     (if kRunningIdx c > 256
      then c\<lparr>kQueue := splice_head (kQueue c) (kRunningIdx c),
             kPendingIdx := kPendingIdx c - kRunningIdx c,
             kRunningIdx := 0\<rparr>
      else c)"

definition resume :: "bool \<Rightarrow> client \<Rightarrow> client outcome" where
  "resume sync c =
     (if kResuming c = 2 then Done c
      else
        (case resume_loop sync (c\<lparr>kResuming := 2\<rparr>) of
           Thrown e c1 \<Rightarrow> Thrown e c1
         | Done c1 \<Rightarrow> Done (compact (c1\<lparr>kResuming := 0\<rparr>))))"

text \<open>\<^verbatim>\<open>client.destroy(err, callback)\<close>, called with a callback.\<close>

definition destroy :: "error option \<Rightarrow> client \<Rightarrow> client outcome" where
  "destroy err c =
     (if kDestroyed c then Done (destroy_again c)
      else
        (case destroy_core err c of
           Thrown e c1 \<Rightarrow> Thrown e c1
         | Done c1 \<Rightarrow> resume False c1))"

text \<open>\<^verbatim>\<open>client.close(callback)\<close>, called with a callback.\<close>

definition close :: "client \<Rightarrow> client outcome" where
  "close c =
     (if kDestroyed c
      then Done (c\<lparr>ticks := ticks c @ [TaskCallback (Some ClientDestroyedError)]\<rparr>)
      else
        (let c1 = c\<lparr>kClosed := True\<rparr> in
         if kSize c1 = 0 then destroy None c1
         else
           (case kOnDestroyed c1 of
              None \<Rightarrow> Thrown TypeError c1
            | Some n \<Rightarrow> Done (c1\<lparr>kOnDestroyed := Some (Suc n)\<rparr>))))"

text \<open>
  The statements of \<^verbatim>\<open>dispatch\<close> inside \<^verbatim>\<open>try\<close>, after the request has been
  constructed.
\<close>

definition enqueue :: "request \<Rightarrow> client \<Rightarrow> client outcome" where
  "enqueue r c =
     (if kDestroyed c then Thrown ClientDestroyedError c
      else if kClosed c then Thrown ClientClosedError c
      else
        (let c1 = c\<lparr>kQueue := kQueue c @ [Some r]\<rparr> in
         case (if kResuming c1 \<noteq> 0 then Done c1
               else if isStream (body r)
               then Done (c1\<lparr>kResuming := 1, ticks := ticks c1 @ [TaskResume]\<rparr>)
               else resume True c1) of
           Thrown e c2 \<Rightarrow> Thrown e c2
         | Done c2 \<Rightarrow>
             Done (if kResuming c2 \<noteq> 0 \<and> kNeedDrain c2 \<noteq> 2 \<and> kBusy c2
                   then c2\<lparr>kNeedDrain := 2\<rparr> else c2)))"

text \<open>
  \<^verbatim>\<open>client.dispatch(opts, handler)\<close> returns a boolean or throws. The class
  \<^verbatim>\<open>Request\<close> this client requires from core/request is not among the sources in its
  revision (lib/core/request.js is an earlier one, with another constructor), so the
  constructor is an argument of the model: \<open>Request i oo h\<close> is
  \<^verbatim>\<open>new Request(opts, handler)\<close>, the new object with the identity \<open>i\<close> or the error
  thrown, where \<open>None\<close> for the options is \<^verbatim>\<open>null\<close> or \<^verbatim>\<open>undefined\<close>. The new object
  gets the identity \<open>fresh\<close>, under which a call of \<^verbatim>\<open>handler.onError\<close> from the
  \<^verbatim>\<open>catch\<close> is recorded too.
\<close>

datatype dispatched = Returned bool client | Threw error client

definition dispatch_try ::
  "(nat \<Rightarrow> opts option \<Rightarrow> handler \<Rightarrow> error + request) \<Rightarrow> opts option \<Rightarrow> handler \<Rightarrow> client
     \<Rightarrow> client outcome" where
  "dispatch_try Request oo h c =
     (case Request (fresh c) oo h of
        Inl e \<Rightarrow> Thrown e c
      | Inr r \<Rightarrow> enqueue r c)"

definition dispatch ::
  "(nat \<Rightarrow> opts option \<Rightarrow> handler \<Rightarrow> error + request) \<Rightarrow> opts option \<Rightarrow> handler \<Rightarrow> client
     \<Rightarrow> dispatched" where
  "dispatch Request oo h c =
     (if \<not> is_object h then Threw (InvalidArgumentError ''handler'') c
      else
        (case dispatch_try Request oo h c of
           Done c1 \<Rightarrow> Returned (kNeedDrain c1 < 2) (c1\<lparr>fresh := Suc (fresh c)\<rparr>)
         | Thrown e c1 \<Rightarrow>
             if \<not> has_onError h
             then Threw (InvalidArgumentError ''invalid onError method'')
                    (c1\<lparr>fresh := Suc (fresh c)\<rparr>)
             else Returned (kNeedDrain c1 < 2)
                    (c1\<lparr>fresh := Suc (fresh c),
                        trace := trace c1 @ [(fresh c, OnError e)]\<rparr>)))"

subsection \<open>Events of the socket and ticks\<close>

text \<open>\<^verbatim>\<open>onSocketConnect\<close>, the callback handed to the connector.\<close>

definition onSocketConnect :: "client \<Rightarrow> client outcome" where
  "onSocketConnect c =
     (case kSocket c of
        None \<Rightarrow> Done c
      | Some s \<Rightarrow>
          resume False (c\<lparr>kSocket := Some (s\<lparr>kConnecting := False\<rparr>),
                          emitted := emitted c @ [EConnect]\<rparr>))"

text \<open>
  The failing of the head of the pipeline in \<^verbatim>\<open>onSocketClose\<close>: the slot is cleared and
  the index advanced before \<^verbatim>\<open>request.onError\<close> is called on what the slot held.
\<close>

definition fail_head :: "error \<Rightarrow> client \<Rightarrow> client outcome" where
  "fail_head err c =
     (let c1 = c\<lparr>kQueue := js_set (kQueue c) (kRunningIdx c) None,
                  kRunningIdx := kRunningIdx c + 1\<rparr>
      in case js_index (kQueue c) (kRunningIdx c) of
           None \<Rightarrow> Thrown TypeError c1
         | Some r \<Rightarrow> Done (snd (fail_request err r c1)))"

text \<open>The branches of \<^verbatim>\<open>onSocketClose\<close> that fail requests, after the socket is dropped.\<close>

definition close_fail :: "error \<Rightarrow> client \<Rightarrow> client outcome" where
  "close_fail err c =
     (if kDestroyed c then
        (if kPending c \<noteq> 0 then Thrown AssertionError c
         else
           (let sp = splice_from (kQueue c) (kRunningIdx c)
            in fail_all err (snd sp) (c\<lparr>kQueue := fst sp\<rparr>)))
      else if kRunning c > 0 \<and> err_code err \<noteq> ''UND_ERR_INFO'' then fail_head err c
      else Done c)"

text \<open>
  \<^verbatim>\<open>onSocketClose\<close>, the listener for the close event of the client's socket. The parser
  goes away with the socket.
\<close>

definition onSocketClose :: "client \<Rightarrow> client outcome" where
  "onSocketClose c =
     (case kSocket c of
        None \<Rightarrow> Done c
      | Some s \<Rightarrow>
          (let err = (case kError s of None \<Rightarrow> SocketError ''closed'' | Some e \<Rightarrow> e)
           in case close_fail err (c\<lparr>kSocket := None\<rparr>) of
                Thrown e c1 \<Rightarrow> Thrown e c1
              | Done c1 \<Rightarrow>
                  resume False
                    (c1\<lparr>kPendingIdx := kRunningIdx c1,
                        emitted := emitted c1 @
                          [if kConnecting s then EConnectionError err else EDisconnect err]\<rparr>)))"

text \<open>The function \<^verbatim>\<open>onDestroyed\<close> inside \<^verbatim>\<open>destroy\<close>.\<close>

definition onDestroyed :: "client \<Rightarrow> client outcome" where
  "onDestroyed c =
     (case kOnDestroyed c of
        None \<Rightarrow> Thrown TypeError c
      | Some n \<Rightarrow>
          Done (c\<lparr>kOnDestroyed := None, emitted := emitted c @ replicate n (ECallback None)\<rparr>))"

definition run_task :: "task \<Rightarrow> client \<Rightarrow> client outcome" where
  "run_task t c =
     (case t of
        TaskResume \<Rightarrow> resume False c
      | TaskEmitDrain \<Rightarrow> Done (emitDrain c)
      | TaskOnDestroyed \<Rightarrow> onDestroyed c
      | TaskCallback e \<Rightarrow> Done (c\<lparr>emitted := emitted c @ [ECallback e]\<rparr>))"

text \<open>The pipelining factor can be set at any time; the setter runs the scheduler.\<close>

definition set_pipelining :: "nat \<Rightarrow> client \<Rightarrow> client outcome" where
  "set_pipelining v c = resume True (c\<lparr>kPipelining := v\<rparr>)"


subsection \<open>The parser callback for the end of the headers\<close>

text \<open>
  Modelled from the spec: \<^verbatim>\<open>util.parseKeepAliveTimeout\<close> (core/util.js) is not among the
  sources. A header value that advertises \<^verbatim>\<open>timeout=N\<close> gives N seconds, in
  milliseconds; a value without such a part gives \<^verbatim>\<open>null\<close>.
\<close>

definition timeout_here :: "string \<Rightarrow> nat option" where
  "timeout_here s = (if take 8 s = ''timeout='' then read_digits 10 None (drop 8 s) else None)"

fun keepalive_seconds :: "string \<Rightarrow> nat option" where
  "keepalive_seconds [] = None"
| "keepalive_seconds (c # cs) =
     (case timeout_here (c # cs) of Some n \<Rightarrow> Some n | None \<Rightarrow> keepalive_seconds cs)"

definition parseKeepAliveTimeout :: "string \<Rightarrow> int option" where
  "parseKeepAliveTimeout v = map_option (\<lambda>n. int n * 1000) (keepalive_seconds v)"

text \<open>
  The loop over the raw headers (pairs of name and value) that looks for the first
  \<^verbatim>\<open>keep-alive\<close> and the first \<^verbatim>\<open>trailer\<close> header; it stops once both are found.
\<close>

definition scan_header ::
  "string \<times> string \<Rightarrow> string option \<times> string option \<Rightarrow> string option \<times> string option" where
  "scan_header kv acc =
     (if fst acc = None \<and> length (fst kv) = 10 \<and> toLowerCase (fst kv) = ''keep-alive''
      then (Some (snd kv), snd acc)
      else if snd acc = None \<and> length (fst kv) = 7 \<and> toLowerCase (fst kv) = ''trailer''
      then (fst acc, Some (snd kv))
      else acc)"

fun scan_headers ::
  "(string \<times> string) list \<Rightarrow> string option \<times> string option \<Rightarrow> string option \<times> string option" where
  "scan_headers [] acc = acc"
| "scan_headers (kv # rest) acc =
     (if fst acc \<noteq> None \<and> snd acc \<noteq> None then acc
      else scan_headers rest (scan_header kv acc))"

text \<open>
  The block that settles the idle timeout: for a response that keeps the connection alive,
  on a client that pipelines, the advertised timeout less the threshold, capped; a result
  that is not positive sets \<open>kReset\<close> on the socket instead.
\<close>

definition keepalive_update :: "bool \<Rightarrow> string option \<Rightarrow> client \<Rightarrow> socket \<Rightarrow> client \<times> socket" where
  "keepalive_update shouldKeepAlive keepAlive c s =
     (if shouldKeepAlive \<and> kPipelining c \<noteq> 0 then
        (case (case keepAlive of None \<Rightarrow> None | Some v \<Rightarrow> parseKeepAliveTimeout v) of
           Some t \<Rightarrow>
             (let timeout = min (t - kKeepAliveTimeoutThreshold (conf c))
                                (kKeepAliveMaxTimeout (conf c))
              in if timeout \<le> 0 then (c, s\<lparr>kReset := True\<rparr>)
                 else (c\<lparr>kKeepAliveTimeoutValue := timeout\<rparr>, s))
         | None \<Rightarrow> (c\<lparr>kKeepAliveTimeoutValue := kKeepAliveDefaultTimeout (conf c)\<rparr>, s))
      else (c, s\<lparr>kReset := True\<rparr>))"

datatype parser_return = RetError | RetUpgrade | RetSkipBody | RetPaused | RetContinue

text \<open>
  The second half of \<^verbatim>\<open>onHeadersComplete\<close>, for a response that is no upgrade: the
  idle timeout, the call of \<^verbatim>\<open>request.onHeaders\<close> and the value for the parser. \<open>pause\<close>
  says that the handler answered \<^verbatim>\<open>false\<close>. A request that is aborted already makes
  \<^verbatim>\<open>request.onHeaders\<close> throw, which destroys the socket.
\<close>

definition headers_deliver ::
  "int \<Rightarrow> bool \<Rightarrow> (string \<times> string) list \<Rightarrow> bool \<Rightarrow> request \<Rightarrow> client \<Rightarrow> socket
     \<Rightarrow> (parser_return \<times> client) outcome" where
  "headers_deliver statusCode shouldKeepAlive rawHeaders pause r c s =
     (let ks = keepalive_update shouldKeepAlive (fst (scan_headers rawHeaders (None, None))) c s;
          c1 = fst ks;
          s1 = snd ks
      in if aborted r then
           (if http_method r = ''HEAD'' then
              (if kReset s1
               then Done (RetSkipBody, c1\<lparr>kSocket := Some (util_destroy (Some AssertionError) s1)\<rparr>)
               else Thrown AssertionError
                      (RetError, c1\<lparr>kSocket := Some (util_destroy (Some AssertionError) s1)\<rparr>))
            else Done (if statusCode < 200 then RetSkipBody else RetContinue,
                       c1\<lparr>kSocket := Some (util_destroy (Some AssertionError) s1)\<rparr>))
         else
           (let c2 = record_effects (rid r) [Handler (OnHeaders statusCode)]
                       (c1\<lparr>kSocket := Some s1\<rparr>)
            in if pause then Done (RetPaused, c2)
               else if http_method r = ''HEAD'' then
                 (if kReset s1 then Done (RetSkipBody, c2) else Thrown AssertionError (RetError, c2))
               else Done (if statusCode < 200 then RetSkipBody else RetContinue, c2)))"

text \<open>
  \<^verbatim>\<open>Parser.onHeadersComplete(statusCode, upgrade, shouldKeepAlive)\<close>, with the headers
  the parser has collected. The requests of this revision carry no \<^verbatim>\<open>bodyTimeout\<close> of
  their own, so the client's value is used.
\<close>

definition onHeadersComplete ::
  "int \<Rightarrow> bool \<Rightarrow> bool \<Rightarrow> (string \<times> string) list \<Rightarrow> bool \<Rightarrow> client
     \<Rightarrow> (parser_return \<times> client) outcome" where
  "onHeadersComplete statusCode upg shouldKeepAlive rawHeaders pause c =
     (case kSocket c of
        None \<Rightarrow> Done (RetError, c)
      | Some s \<Rightarrow>
          if sock_destroyed s then Done (RetError, c)
          else
            (case js_index (kQueue c) (kRunningIdx c) of
               None \<Rightarrow> Thrown AssertionError (RetError, c)
             | Some r \<Rightarrow>
                 if p_upgrade s \<or> (case p_statusCode s of None \<Rightarrow> False | Some n \<Rightarrow> n \<ge> 200)
                 then Thrown AssertionError (RetError, c)
                 else if statusCode = 100 then
                   Done (RetError,
                         c\<lparr>kSocket := Some (util_destroy (Some (SocketError ''bad response'')) s)\<rparr>)
                 else if upg \<and> \<not> truthy (upgrade r) then
                   Done (RetError,
                         c\<lparr>kSocket := Some (util_destroy (Some (SocketError ''bad upgrade'')) s)\<rparr>)
                 else if p_timeoutType s \<noteq> Some TIMEOUT_HEADERS
                 then Thrown AssertionError (RetError, c)
                 else
                   (let s1 = s\<lparr>p_statusCode := Some statusCode,
                                p_shouldKeepAlive := shouldKeepAlive\<rparr>;
                        s2 = (if statusCode \<ge> 200
                              then parser_setTimeout (kBodyTimeout (conf c)) TIMEOUT_BODY s1
                              else s1)
                    in if (http_method r = ''CONNECT'' \<and> statusCode \<ge> 200 \<and> statusCode < 300)
                          \<or> upg
                       then (if kRunning c = 1
                             then Done (RetUpgrade, c\<lparr>kSocket := Some (s2\<lparr>p_upgrade := True\<rparr>)\<rparr>)
                             else Thrown AssertionError (RetError, c\<lparr>kSocket := Some s2\<rparr>))
                       else headers_deliver statusCode shouldKeepAlive rawHeaders pause r c s2)))"


subsection \<open>The error event of the socket and the end of a response\<close>

text \<open>
  One turn of the loop of \<^verbatim>\<open>onSocketError\<close> for \<^verbatim>\<open>ERR_TLS_CERT_ALTNAME_INVALID\<close>: the
  request \<open>r\<close> read at \<open>kPendingIdx\<close> is stepped over and failed. The failed request
  object stays in its slot.
\<close>

definition fail_pending :: "error \<Rightarrow> request \<Rightarrow> client \<Rightarrow> client" where
  "fail_pending err r c =
     (let f = fail_request err r (c\<lparr>kPendingIdx := kPendingIdx c + 1\<rparr>)
      in update_request (kPendingIdx c) (fst f) (snd f))"

lemma fail_pending_frame [simp]:
  "kPendingIdx (fail_pending err r c) = kPendingIdx c + 1"
  "kRunningIdx (fail_pending err r c) = kRunningIdx c"
  "length (kQueue (fail_pending err r c)) = length (kQueue c)"
  "kPipelining (fail_pending err r c) = kPipelining c"
  "kServerName (fail_pending err r c) = kServerName c"
  by (simp_all add: fail_pending_def Let_def update_request_def)

text \<open>
  The loop \<^verbatim>\<open>while (client[kPending] > 0 && client[kQueue][client[kPendingIdx]].servername
  === client[kServerName])\<close>.
\<close>

function fail_matching :: "error \<Rightarrow> client \<Rightarrow> client outcome" where
  "fail_matching err c =
     (if kPending c > 0 then
        (case js_index (kQueue c) (kPendingIdx c) of
           None \<Rightarrow> Thrown TypeError c
         | Some r \<Rightarrow>
             if servername r = kServerName c then fail_matching err (fail_pending err r c)
             else Done c)
      else Done c)"
  by pat_completeness auto
termination
  by (relation "measure (\<lambda>p. nat (kPending (snd p)))") (simp_all add: kPending_def)

declare fail_matching.simps [simp del]

text \<open>
  \<^verbatim>\<open>onSocketError\<close>, the listener for the error event of the client's socket. The error
  is kept on the socket for the close event that follows.
\<close>

definition onSocketError :: "error \<Rightarrow> client \<Rightarrow> client outcome" where
  "onSocketError err c =
     (case kSocket c of
        None \<Rightarrow> Done c
      | Some s \<Rightarrow>
          (let c0 = c\<lparr>kSocket := Some (s\<lparr>kError := Some err\<rparr>)\<rparr> in
           if err_code err = ''ERR_TLS_CERT_ALTNAME_INVALID'' then
             (if kRunning c0 \<noteq> 0 then Thrown AssertionError c0 else fail_matching err c0)
           else if kRunning c0 = 0 \<and> err_code err \<noteq> ''UND_ERR_INFO''
                   \<and> err_code err \<noteq> ''UND_ERR_SOCKET'' then
             (let sp = splice_from (kQueue c0) (kRunningIdx c0)
              in case fail_all err (snd sp) (c0\<lparr>kQueue := fst sp\<rparr>) of
                   Thrown e c1 \<Rightarrow> Thrown e c1
                 | Done c1 \<Rightarrow> if kSize c1 \<noteq> 0 then Thrown AssertionError c1 else Done c1)
           else Done c0))"

text \<open>
  The statement \<^verbatim>\<open>client[kQueue][client[kRunningIdx]++] = null\<close> with which
  \<^verbatim>\<open>onMessageComplete\<close> and \<^verbatim>\<open>onUpgrade\<close> take the answered request off the head of the
  pipeline.
\<close>

definition retire_head :: "client \<Rightarrow> client" where
  "retire_head c =
     c\<lparr>kQueue := js_set (kQueue c) (kRunningIdx c) None, kRunningIdx := kRunningIdx c + 1\<rparr>"

section \<open>RedirectHandler (redirect agent)\<close>

text \<open>
  The request headers of the options: an array of alternating names and values (read here
  as the list of its name and value pairs, names being strings), an object (the list of
  its entries), absent, or a value of another type.
\<close>

datatype request_headers =
    HArray "(string \<times> jsval) list"
  | HObject "(string \<times> jsval) list"
  | HAbsent
  | HOther

record redirect_opts =
  ro_origin :: string
  ro_path :: string
  ro_method :: string
  ro_body :: jsval
  ro_headers :: request_headers

record redirect_handler =
  rh_location :: "string option"
  rh_abort :: bool
  rh_opts :: redirect_opts
  rh_destroyed :: bool

text \<open>
  What the redirect handler does to the outside: a call of the wrapped handler, a call of
  the stored abort callback, or a dispatch of new options through the agent.
\<close>

datatype redirect_effect =
    Inner handler_event
  | AbortCall
  | Dispatch redirect_opts

text \<open>The response headers are the raw array of alternating names and values.\<close>

fun parseLocation :: "string list \<Rightarrow> string option" where
  "parseLocation (k # v # rest) =
     (if length k = 8 \<and> toLowerCase k = ''location'' then Some v else parseLocation rest)"
| "parseLocation _ = None"

definition shouldRemoveHeader :: "string \<Rightarrow> bool \<Rightarrow> bool" where
  "shouldRemoveHeader header removeContent =
     ((length header = 4 \<and> toLowerCase header = ''host'') \<or>
      (removeContent \<and> take 8 (toLowerCase header) = ''content-''))"

definition cleanRequestHeaders ::
  "request_headers \<Rightarrow> bool \<Rightarrow> error + (string \<times> jsval) list" where
  "cleanRequestHeaders hs removeContent =
     (case hs of
        HArray kvs \<Rightarrow> Inr (filter (\<lambda>kv. \<not> shouldRemoveHeader (fst kv) removeContent) kvs)
      | HObject kvs \<Rightarrow> Inr (filter (\<lambda>kv. \<not> shouldRemoveHeader (fst kv) removeContent) kvs)
      | HAbsent \<Rightarrow> Inr []
      | HOther \<Rightarrow> Inl (InvalidArgumentError ''headers must be an object or an array''))"

text \<open>
  The result of \<^verbatim>\<open>util.parseURL(new URL(location, origin))\<close>: origin, pathname and
  search. The resolver is the platform's URL parser, a parameter here; \<open>None\<close> is the
  exception it throws on a string that is no URL.
\<close>

record parsed_url =
  u_origin :: string
  u_pathname :: string
  u_search :: string

definition redirect_path :: "parsed_url \<Rightarrow> string" where
  "redirect_path u =
     (if u_search u \<noteq> []
      then (if u_pathname u \<noteq> [] then u_pathname u else ''/'') @ u_search u
      else u_pathname u)"

definition RedirectHandler_onHeaders ::
  "(string \<Rightarrow> string \<Rightarrow> parsed_url option) \<Rightarrow> int \<Rightarrow> string list \<Rightarrow> redirect_handler
     \<Rightarrow> (redirect_effect list \<times> redirect_handler) outcome" where
  "RedirectHandler_onHeaders resolve statusCode hs h =
     (if statusCode \<notin> set [300, 301, 302, 303, 307, 308]
      then Done ([Inner (OnHeaders statusCode)], h)
      else
        (let h1 = h\<lparr>rh_location := parseLocation hs\<rparr> in
         case rh_location h1 of
           None \<Rightarrow> Done ([Inner (OnHeaders statusCode)], h1)
         | Some loc \<Rightarrow>
             if loc = [] then Done ([Inner (OnHeaders statusCode)], h1)
             else
               (case resolve loc (ro_origin (rh_opts h1)) of
                  None \<Rightarrow> Thrown TypeError ([], h1)
                | Some u \<Rightarrow>
                    (case cleanRequestHeaders (ro_headers (rh_opts h1)) (statusCode = 303) of
                       Inl e \<Rightarrow> Thrown e ([], h1)
                     | Inr cleaned \<Rightarrow>
                         (let o1 = (rh_opts h1)\<lparr> ro_headers := HArray cleaned,
                                                  ro_path := redirect_path u,
                                                  ro_origin := u_origin u \<rparr>;
                              o2 = (if statusCode = 303 \<and> ro_method o1 \<noteq> ''HEAD''
                                    then o1\<lparr> ro_method := ''GET'', ro_body := JNull \<rparr>
                                    else o1)
                          in Done ([], h1\<lparr>rh_opts := o2\<rparr>))))))"

definition RedirectHandler_onData :: "redirect_handler \<Rightarrow> redirect_effect list" where
  "RedirectHandler_onData h =
     (case rh_location h of
        None \<Rightarrow> [Inner OnData]
      | Some loc \<Rightarrow> if loc = [] then [Inner OnData] else [])"

definition RedirectHandler_onComplete :: "redirect_handler \<Rightarrow> redirect_effect list" where
  "RedirectHandler_onComplete h =
     (case rh_location h of
        None \<Rightarrow> [Inner OnComplete]
      | Some loc \<Rightarrow> if loc = [] then [Inner OnComplete] else [Dispatch (rh_opts h)])"

definition RedirectHandler_onError :: "error \<Rightarrow> redirect_handler \<Rightarrow> redirect_effect list" where
  "RedirectHandler_onError err h = [Inner (OnError err)]"

definition RedirectHandler_onUpgrade :: "int \<Rightarrow> redirect_handler \<Rightarrow> redirect_effect list" where
  "RedirectHandler_onUpgrade statusCode h = [Inner (OnUpgrade statusCode)]"

definition RedirectHandler_onConnect ::
  "redirect_handler \<Rightarrow> redirect_effect list \<times> redirect_handler" where
  "RedirectHandler_onConnect h =
     (if rh_destroyed h then ([AbortCall], h)
      else ([Inner OnConnect], h\<lparr>rh_abort := True\<rparr>))"

definition RedirectHandler_destroy ::
  "error \<Rightarrow> redirect_handler \<Rightarrow> redirect_effect list \<times> redirect_handler" where
  "RedirectHandler_destroy err h =
     ((if rh_abort h then [AbortCall] else []) @ [Inner (OnError err)],
      h\<lparr>rh_destroyed := True\<rparr>)"

text \<open>The request a followed redirect sends: what \<^verbatim>\<open>onComplete\<close> dispatches after
  \<^verbatim>\<open>onHeaders\<close> has seen the response.\<close>

definition followed ::
  "(string \<Rightarrow> string \<Rightarrow> parsed_url option) \<Rightarrow> int \<Rightarrow> string list \<Rightarrow> redirect_handler
     \<Rightarrow> redirect_effect list" where
  "followed resolve statusCode hs h =
     (case RedirectHandler_onHeaders resolve statusCode hs h of
        Done s \<Rightarrow> RedirectHandler_onComplete (snd s)
      | Thrown e s \<Rightarrow> [])"


section \<open>Invariants used in the proofs\<close>

definition no_error :: "handler_event list \<Rightarrow> bool" where
  "no_error evs = (\<forall>e\<in>set evs. \<not> is_OnError e)"

text \<open>
  A request object and the effects of its history: before it is aborted its handler has
  seen no \<^verbatim>\<open>onError\<close>; once it is aborted the handler has seen one, as its last call.
\<close>

definition req_inv :: "effect list \<times> request \<Rightarrow> bool" where
  "req_inv s =
     (if aborted (snd s)
      then after_first_error (handler_events (fst s)) = [] \<and> \<not> no_error (handler_events (fst s))
      else no_error (handler_events (fst s)))"

text \<open>The state a pass of the scheduler's loop body ends in.\<close>

fun step_state :: "'s step \<Rightarrow> 's" where
  "step_state (Continue s) = s"
| "step_state (Return s) = s"
| "step_state (Throw e s) = s"

text \<open>
  The error, if any, with which \<^verbatim>\<open>dispatch\<close> turns a request down before it is queued:
  options that cannot be read, options the constructor refuses, a destroyed or a closed
  client, in the order of the code.
\<close>

definition rejected ::
  "(nat \<Rightarrow> opts option \<Rightarrow> handler \<Rightarrow> error + request) \<Rightarrow> opts option \<Rightarrow> handler \<Rightarrow> client
     \<Rightarrow> error option" where
  "rejected Request oo h c =
     (case Request (fresh c) oo h of
        Inl e \<Rightarrow> Some e
      | Inr r \<Rightarrow>
          if kDestroyed c then Some ClientDestroyedError
          else if kClosed c then Some ClientClosedError
          else None)"


text \<open>
  A request that may follow others down the pipeline: idempotent, without a stream body,
  no upgrade and no CONNECT.
\<close>

definition pipelineable :: "request \<Rightarrow> bool" where
  "pipelineable r =
     (idempotent r \<and> \<not> isStream (body r) \<and> \<not> truthy (upgrade r) \<and> http_method r \<noteq> ''CONNECT'')"

text \<open>
  The request object \<open>r'\<close> is \<open>r\<close> at a later time: the same object, whose body may
  have been taken off.
\<close>

definition descends :: "request \<Rightarrow> request \<Rightarrow> bool" where
  "descends r r' =
     (rid r' = rid r \<and> http_method r' = http_method r \<and> upgrade r' = upgrade r
      \<and> idempotent r' = idempotent r \<and> (body r' = body r \<or> body r' = JNull))"

text \<open>
  What the last part of a pass of the scheduler can do with the request \<open>r\<close> at
  \<open>kPendingIdx\<close>: leave it in its slot, count it as running (only when nothing is running
  or it may be pipelined), or remove it from the queue.
\<close>

definition write_result :: "request \<Rightarrow> client \<Rightarrow> client \<Rightarrow> bool" where
  "write_result r c c' =
     (kDestroyed c' = kDestroyed c \<and> kClosed c' = kClosed c \<and> kPipelining c' = kPipelining c
      \<and> kResuming c' = kResuming c \<and> conf c' = conf c \<and> kRunningIdx c' = kRunningIdx c
      \<and> kNeedDrain c' = kNeedDrain c
      \<and> (\<exists>r'. descends r r' \<and>
            ((kQueue c' = (kQueue c)[nat (kPendingIdx c) := Some r']
              \<and> (kPendingIdx c' = kPendingIdx c
                  \<or> (kPendingIdx c' = kPendingIdx c + 1 \<and> (kRunning c \<le> 0 \<or> pipelineable r'))))
             \<or> (kQueue c' = take (nat (kPendingIdx c)) (kQueue c)
                              @ drop (Suc (nat (kPendingIdx c))) (kQueue c)
                 \<and> kPendingIdx c' = kPendingIdx c))))"

text \<open>A pass that touches neither the queue nor the flags.\<close>

definition quiet :: "client \<Rightarrow> client \<Rightarrow> bool" where
  "quiet c c' =
     (kDestroyed c' = kDestroyed c \<and> kClosed c' = kClosed c \<and> kPipelining c' = kPipelining c
      \<and> kResuming c' = kResuming c \<and> conf c' = conf c \<and> kRunningIdx c' = kRunningIdx c
      \<and> kNeedDrain c' = kNeedDrain c \<and> kQueue c' = kQueue c \<and> kPendingIdx c' = kPendingIdx c)"

definition pick_result :: "client \<Rightarrow> client \<Rightarrow> bool" where
  "pick_result c c' =
     (quiet c c' \<or>
      (\<exists>r. js_index (kQueue c) (kPendingIdx c) = Some r \<and> kPending c > 0
           \<and> kRunning c < pipelining_or_1 c \<and> write_result r c c'))"

text \<open>What \<^verbatim>\<open>client.destroy\<close> does to the queue: the pending requests are removed.\<close>

definition destroy_result :: "client \<Rightarrow> client \<Rightarrow> bool" where
  "destroy_result c c' =
     (kPipelining c' = kPipelining c \<and> kResuming c' = kResuming c \<and> conf c' = conf c
      \<and> kRunningIdx c' = kRunningIdx c \<and> kNeedDrain c' = kNeedDrain c
      \<and> kPendingIdx c' = kPendingIdx c
      \<and> kQueue c' = fst (splice_from (kQueue c) (kPendingIdx c))
      \<and> (kDestroyed c \<longrightarrow> kDestroyed c'))"

text \<open>What one pass of the scheduler can do.\<close>

definition step_result :: "client \<Rightarrow> client \<Rightarrow> bool" where
  "step_result c c' =
     ((\<exists>v. (v = kNeedDrain c \<or> v \<le> 2) \<and> pick_result (c\<lparr>kNeedDrain := v\<rparr>) c')
      \<or> destroy_result c c')"

text \<open>
  The integrity of the queue: the two indices are in order and inside the array, and no
  more requests are running than \<^verbatim>\<open>kPipelining || 1\<close>.
\<close>

definition queue_inv :: "client \<Rightarrow> bool" where
  "queue_inv c =
     (0 \<le> kRunningIdx c \<and> kRunningIdx c \<le> kPendingIdx c
      \<and> kPendingIdx c \<le> int (length (kQueue c))
      \<and> kRunning c \<le> pipelining_or_1 c)"

text \<open>The slots of the running requests, in order, the head first.\<close>

definition running_slots :: "client \<Rightarrow> request option list" where
  "running_slots c = take (nat (kRunning c)) (drop (nat (kRunningIdx c)) (kQueue c))"

definition pending_slots :: "client \<Rightarrow> request option list" where
  "pending_slots c = drop (nat (kPendingIdx c)) (kQueue c)"

definition slot_ok :: "(request \<Rightarrow> bool) \<Rightarrow> request option \<Rightarrow> bool" where
  "slot_ok P s = (case s of None \<Rightarrow> True | Some r \<Rightarrow> P r)"

definition slot_is :: "(request \<Rightarrow> bool) \<Rightarrow> request option \<Rightarrow> bool" where
  "slot_is P s = (case s of None \<Rightarrow> False | Some r \<Rightarrow> P r)"

text \<open>The indices are in order and inside the array.\<close>

definition idx_inv :: "client \<Rightarrow> bool" where
  "idx_inv c =
     (0 \<le> kRunningIdx c \<and> kRunningIdx c \<le> kPendingIdx c
      \<and> kPendingIdx c \<le> int (length (kQueue c)))"

text \<open>
  A request that may stand behind the head of the running region: one that may be
  pipelined, or one that has been failed.
\<close>

definition may_follow :: "request \<Rightarrow> bool" where
  "may_follow r = (pipelineable r \<or> aborted r)"

text \<open>
  Every request in the running region behind its head may be pipelined or has been
  failed.
\<close>

definition excl_inv :: "client \<Rightarrow> bool" where
  "excl_inv c = (idx_inv c \<and> list_all (slot_ok may_follow) (tl (running_slots c)))"

text \<open>The number of slots of a list that hold a request with the property \<open>P\<close>.\<close>

definition count_slots :: "(request \<Rightarrow> bool) \<Rightarrow> request option list \<Rightarrow> nat" where
  "count_slots P xs = length (filter (slot_is P) xs)"

text \<open>
  A client between connections: nothing is running, its socket, if it has one, is still
  connecting, the slots \<open>ps\<close> are waiting and the handlers have been called as in \<open>tr\<close>.
\<close>

definition waiting :: "request option list \<Rightarrow> (nat \<times> handler_event) list \<Rightarrow> client \<Rightarrow> bool" where
  "waiting ps tr c =
     (idx_inv c \<and> kRunning c = 0
      \<and> (case kSocket c of None \<Rightarrow> True | Some s \<Rightarrow> kConnecting s)
      \<and> pending_slots c = ps \<and> trace c = tr)"

text \<open>
  The indices are in order and no more requests are running than the larger of \<open>b\<close>
  and \<^verbatim>\<open>kPipelining || 1\<close>.
\<close>

definition run_bound :: "int \<Rightarrow> client \<Rightarrow> bool" where
  "run_bound b c = (idx_inv c \<and> kRunning c \<le> max b (pipelining_or_1 c))"


section \<open>Concrete inputs\<close>

definition get_opts :: opts where
  "get_opts = \<lparr> o_path = JStr ''/'', o_method = JStr ''GET'', o_body = JUndefined,
      o_headers = None, o_idempotent = None, o_upgrade = JUndefined,
      o_requestTimeout = JUndefined \<rparr>"

definition plain_handler :: handler where
  "plain_handler = \<lparr> is_object = True, has_onError = True, on_connect = Proceed \<rparr>"

definition no_ip :: "string \<Rightarrow> bool" where
  "no_ip s = False"

text \<open>
  The constructor of lib/core/request.js, the revision at hand, for host names that are no
  IP addresses and without a default for the request timeout. Options that are \<^verbatim>\<open>null\<close>
  or \<^verbatim>\<open>undefined\<close> cannot be destructured.
\<close>

definition request_js :: "nat \<Rightarrow> opts option \<Rightarrow> handler \<Rightarrow> error + request" where
  "request_js i oo h =
     (case oo of None \<Rightarrow> Inl TypeError | Some opt \<Rightarrow> Request_new no_ip i opt None h)"

definition get_request :: "nat \<Rightarrow> request" where
  "get_request i =
     \<lparr> rid = i, handler = plain_handler, http_method = ''GET'', body = JNull, host = JUndefined,
       servername = None, aborted = False, upgrade = JBool False, path = ''/'', idempotent = True,
       contentLength = None, headers = [], kRequestTimeout = None, kTimeout = False,
       kResume = False \<rparr>"

definition c3_calls :: "call list" where
  "c3_calls =
     [CallOnConnect, CallOnHeaders 200, CallOnBody, CallOnError (SocketError ''closed''),
      CallOnBody, CallOnComplete, CallAbort None]"


text \<open>A resolver for absolute paths on the same origin, and a HEAD request that carries a
  body.\<close>

definition same_origin :: "string \<Rightarrow> string \<Rightarrow> parsed_url option" where
  "same_origin loc origin = Some \<lparr> u_origin = origin, u_pathname = loc, u_search = [] \<rparr>"

definition redirect_example :: "string \<Rightarrow> redirect_handler" where
  "redirect_example m =
     \<lparr> rh_location = None, rh_abort = False,
       rh_opts = \<lparr> ro_origin = ''http://a'', ro_path = ''/'', ro_method = m,
                   ro_body = JBuffer ''x'',
                   ro_headers = HObject [(''Host'', JStr ''a''), (''Content-Type'', JStr ''t'')] \<rparr>,
       rh_destroyed = False \<rparr>"


text \<open>A configuration with the defaults of the constructor, for a plain HTTP origin.\<close>

definition default_config :: config where
  "default_config =
     \<lparr> url_https = False, kHostHeader = ''host: localhost'' @ CRLF,
       kConnectTimeoutValue = 10000, kKeepAliveDefaultTimeout = 4000,
       kKeepAliveMaxTimeout = 600000, kKeepAliveTimeoutThreshold = 1000,
       kBodyTimeout = 30000, kHeadersTimeout = 30000, kStrictContentLength = True \<rparr>"

text \<open>The client after \<^verbatim>\<open>dispatch\<close>, whatever it returned.\<close>

definition dispatched_client :: "dispatched \<Rightarrow> client" where
  "dispatched_client d = (case d of Returned b c \<Rightarrow> c | Threw e c \<Rightarrow> c)"

text \<open>
  A client with the given pipelining factor that has dispatched \<open>n\<close> GET requests and
  whose socket has then connected.
\<close>

fun dispatch_gets :: "nat \<Rightarrow> client \<Rightarrow> client" where
  "dispatch_gets 0 c = c"
| "dispatch_gets (Suc n) c =
     dispatch_gets n (dispatched_client (dispatch request_js (Some get_opts) plain_handler c))"

definition connected_gets :: "nat \<Rightarrow> nat \<Rightarrow> client" where
  "connected_gets p n = state_of (onSocketConnect (dispatch_gets n (Client_new default_config p)))"


text \<open>Options the constructor refuses (the upgrade is a number), and a handler object
  without an \<^verbatim>\<open>onError\<close> method.\<close>

definition bad_opts :: opts where
  "bad_opts = get_opts\<lparr>o_upgrade := JNum 1\<rparr>"

definition mute_handler :: handler where
  "mute_handler = \<lparr> is_object = True, has_onError = False, on_connect = Proceed \<rparr>"

definition no_handler :: handler where
  "no_handler = \<lparr> is_object = False, has_onError = False, on_connect = Proceed \<rparr>"


text \<open>A new client after one dispatch: of a GET request, and of options that are refused.\<close>

definition one_get :: client where
  "one_get = dispatch_gets 1 (Client_new default_config 1)"

definition one_bad :: client where
  "one_bad =
     dispatched_client (dispatch request_js (Some bad_opts) plain_handler (Client_new default_config 1))"


text \<open>A new client that has dispatched one CONNECT request and whose socket has then
  connected.\<close>

definition connect_opts :: opts where
  "connect_opts = get_opts\<lparr>o_method := JStr ''CONNECT''\<rparr>"

definition connected_connect :: client where
  "connected_connect =
     state_of (onSocketConnect (dispatched_client
       (dispatch request_js (Some connect_opts) plain_handler (Client_new default_config 1))))"



text \<open>
  POST requests, which are not idempotent. A client with pipelining 3 that has dispatched
  a POST and two GET requests and whose socket has then connected. A client for a TLS
  origin that has dispatched two POST requests, and the same client once the error event
  of its socket has reported a certificate that does not match the server name.
\<close>

definition post_opts :: opts where
  "post_opts = get_opts\<lparr>o_method := JStr ''POST''\<rparr>"

definition connected_post_gets :: client where
  "connected_post_gets =
     state_of (onSocketConnect (dispatch_gets 2 (dispatched_client
       (dispatch request_js (Some post_opts) plain_handler (Client_new default_config 3)))))"

definition tls_posts :: client where
  "tls_posts =
     dispatched_client (dispatch request_js (Some post_opts) plain_handler
       (dispatched_client (dispatch request_js (Some post_opts) plain_handler
          (Client_new (default_config\<lparr>url_https := True\<rparr>) 1))))"

definition altname_failed :: client where
  "altname_failed = state_of (onSocketError (SystemError ''ERR_TLS_CERT_ALTNAME_INVALID'') tls_posts)"






text \<open>
  A client with pipelining 3 and three GET requests running whose pipelining factor is
  then set to 1.
\<close>

definition lowered_factor :: client where
  "lowered_factor = state_of (set_pipelining 1 (connected_gets 3 3))"


text \<open>
  A client with pipelining 3 and one GET request running after it has dispatched a
  second one.
\<close>

definition two_of_three :: client where
  "two_of_three =
     dispatched_client (dispatch request_js (Some get_opts) plain_handler (connected_gets 3 1))"




section \<open>The first revision of the client: the retry of the pipeline\<close>












section \<open>What a pass of the scheduler does\<close>

lemma descends_refl [simp]: "descends r r"
  by (simp add: descends_def)

lemma descends_trans: "descends a b \<Longrightarrow> descends b c \<Longrightarrow> descends a c"
  by (auto simp: descends_def)

lemma descends_drop [simp]: "descends r (drop_empty_stream r)"
  by (simp add: descends_def drop_empty_stream_def)

lemma descends_onError [simp]: "descends r (snd (Request_onError e r))"
  by (simp add: descends_def Request_onError_def destroy_request_def Let_def)

lemma descends_fail [simp]: "descends r (fst (fail_request e r c))"
  by (simp add: fail_request_def)

lemma descends_connect: "descends r (fst (connect_request r c))"
  by (cases "on_connect (handler r)") (simp_all add: connect_request_def Let_def)

lemma write_socket_request [simp]: "fst (snd (state_of (write_socket r cl c))) = r"
  by (cases "kSocket c") (auto simp: write_socket_def split: outcome.splits)

lemma descends_write: "descends r (fst (snd (state_of (write_req r c))))"
  using descends_connect [of r c]
    descends_connect [of r "c\<lparr>emitted := emitted c @ [EWarning RequestContentLengthMismatchError]\<rparr>"]
  by (simp add: write_req_def Let_def)

lemma pipelineable_descends:
  "descends r r' \<Longrightarrow> idempotent r \<Longrightarrow> \<not> truthy (upgrade r) \<Longrightarrow> http_method r \<noteq> ''CONNECT''
     \<Longrightarrow> \<not> isStream (body r) \<Longrightarrow> pipelineable r'"
  by (auto simp: descends_def pipelineable_def isStream_def)

lemma update_request_queue:
  "0 \<le> i \<Longrightarrow> i < int (length (kQueue c))
     \<Longrightarrow> kQueue (update_request i r c) = (kQueue c)[nat i := Some r]"
  by (simp add: update_request_def)

lemma splice_one_in_range:
  "0 \<le> i \<Longrightarrow> i < int (length xs) \<Longrightarrow> splice_one xs i = take (nat i) xs @ drop (Suc (nat i)) xs"
  by (auto simp: splice_one_def js_start_def)

lemma js_index_nth: "js_index xs i = Some x \<Longrightarrow> xs ! nat i = Some x"
  by (auto simp: js_index_def split: if_splits)

lemma resume_write_result:
  assumes slot: "js_index (kQueue c) (kPendingIdx c) = Some r"
  shows "write_result r c (step_state (resume_write r c))"
proof -
  from js_index_Some [OF slot]
  have rng: "0 \<le> kPendingIdx c" "kPendingIdx c < int (length (kQueue c))" by auto
  define n where "n = nat (kPendingIdx c)"
  define r1 where "r1 = drop_empty_stream r"
  define c1 where "c1 = update_request (kPendingIdx c) r1 c"
  define w where "w = state_of (write_req r1 c1)"
  define c2 where "c2 = update_request (kPendingIdx c1) (fst (snd w)) (snd (snd w))"
  have d1: "descends r r1" by (simp add: r1_def)
  have q1: "kQueue c1 = (kQueue c)[n := Some r1]"
    using rng by (simp add: c1_def n_def update_request_queue)
  have sq: "same_queue c1 (snd (snd w))" unfolding w_def by (rule write_req_same)
  have dw: "descends r1 (fst (snd w))" unfolding w_def by (rule descends_write)
  from descends_trans [OF d1 dw] have d2: "descends r (fst (snd w))" .
  have q2: "kQueue c2 = (kQueue c)[n := Some (fst (snd w))]"
    using rng sq q1 by (simp add: c2_def update_request_queue same_queue_def c1_def n_def)
  have f1: "kDestroyed c1 = kDestroyed c" "kClosed c1 = kClosed c" "kPipelining c1 = kPipelining c"
    "kResuming c1 = kResuming c" "conf c1 = conf c" "kRunningIdx c1 = kRunningIdx c"
    "kNeedDrain c1 = kNeedDrain c" "kPendingIdx c1 = kPendingIdx c"
    by (simp_all add: c1_def)
  have f2: "kDestroyed c2 = kDestroyed c" "kClosed c2 = kClosed c" "kPipelining c2 = kPipelining c"
    "kResuming c2 = kResuming c" "conf c2 = conf c" "kRunningIdx c2 = kRunningIdx c"
    "kNeedDrain c2 = kNeedDrain c" "kPendingIdx c2 = kPendingIdx c"
    using sq f1 by (simp_all add: c2_def same_queue_def)
  have s1: "splice_one (kQueue c1) (kPendingIdx c1) = take n (kQueue c) @ drop (Suc n) (kQueue c)"
    using rng q1 f1 by (simp add: splice_one_in_range n_def)
  have s2: "splice_one (kQueue c2) (kPendingIdx c2) = take n (kQueue c) @ drop (Suc n) (kQueue c)"
    using rng q2 f2 by (simp add: splice_one_in_range n_def)
  have q0: "kQueue c = (kQueue c)[n := Some r]"
    using js_index_nth [OF slot] list_update_id [of "kQueue c" n] by (simp add: n_def)
  have r0: "write_result r c c"
    unfolding write_result_def using q0 n_def descends_refl by blast
  have r1: "write_result r c c1"
    unfolding write_result_def using q1 f1 d1 n_def by blast
  have r1s: "write_result r c (c1\<lparr>kQueue := splice_one (kQueue c1) (kPendingIdx c1)\<rparr>)"
    unfolding write_result_def using s1 f1 d1 n_def by auto
  have r2: "write_result r c c2"
    unfolding write_result_def using q2 f2 d2 n_def by blast
  have r2s: "write_result r c (c2\<lparr>kQueue := splice_one (kQueue c2) (kPendingIdx c2)\<rparr>)"
    unfolding write_result_def using s2 f2 d2 n_def by auto
  have r2a: "kRunning c \<le> 0 \<or> pipelineable (fst (snd w))
      \<Longrightarrow> write_result r c (c2\<lparr>kPendingIdx := kPendingIdx c2 + 1\<rparr>)"
    unfolding write_result_def using q2 f2 d2 n_def by auto
  have pl: "\<not> (kRunning c > 0 \<and> \<not> idempotent r)
      \<Longrightarrow> \<not> (kRunning c > 0 \<and> (truthy (upgrade r) \<or> http_method r = ''CONNECT''))
      \<Longrightarrow> \<not> (kRunning c1 > 0 \<and> isStream (body r1))
      \<Longrightarrow> kRunning c \<le> 0 \<or> pipelineable (fst (snd w))"
    using dw d1 by (auto simp: descends_def pipelineable_def isStream_def c1_def)
  show ?thesis
    unfolding resume_write_def Let_def r1_def [symmetric] c1_def [symmetric]
    using r0 r1 r1s r2 r2s r2a pl
    by (auto simp: w_def c2_def split: outcome.splits)
qed

lemma quiet_refl [simp]: "quiet c c"
  by (simp add: quiet_def)

lemma quiet_simps [simp]:
  "quiet c (c'\<lparr>kSocket := x\<rparr>) = quiet c c'"
  "quiet c (c'\<lparr>kServerName := y\<rparr>) = quiet c c'"
  "quiet c (c'\<lparr>ticks := z\<rparr>) = quiet c c'"
  "quiet c (c'\<lparr>emitted := u\<rparr>) = quiet c c'"
  "quiet (c\<lparr>kSocket := x\<rparr>) c' = quiet c c'"
  "quiet (c\<lparr>kServerName := y\<rparr>) c' = quiet c c'"
  by (simp_all add: quiet_def)

lemma write_result_simps [simp]:
  "write_result r (c\<lparr>kSocket := x\<rparr>) c' = write_result r c c'"
  "write_result r (c\<lparr>kServerName := y\<rparr>) c' = write_result r c c'"
  by (simp_all add: write_result_def kRunning_def)

lemma pick_result_simps [simp]:
  "pick_result (c\<lparr>kSocket := x\<rparr>) c' = pick_result c c'"
  "pick_result (c\<lparr>kServerName := y\<rparr>) c' = pick_result c c'"
  by (simp_all add: pick_result_def kRunning_def kPending_def pipelining_or_1_def)

lemma resume_socket_result:
  assumes "ro = js_index (kQueue c) (kPendingIdx c)"
  shows "quiet c (step_state (resume_socket so ro c))
     \<or> (\<exists>r. ro = Some r \<and> write_result r c (step_state (resume_socket so ro c)))"
proof (cases so)
  case None
  then show ?thesis by (simp add: resume_socket_def connect_def)
next
  case (Some s)
  show ?thesis
  proof (cases ro)
    case None
    with Some show ?thesis by (simp add: resume_socket_def)
  next
    case (Some r)
    with assms have "js_index (kQueue c) (kPendingIdx c) = Some r" by simp
    from resume_write_result [OF this] Some \<open>so = Some s\<close> show ?thesis
      by (simp add: resume_socket_def)
  qed
qed

lemma resume_servername_result:
  assumes "ro = js_index (kQueue c) (kPendingIdx c)"
  shows "quiet c (step_state (resume_servername so ro c))
     \<or> (\<exists>r. ro = Some r \<and> write_result r c (step_state (resume_servername so ro c)))"
proof -
  have a: "quiet c (step_state (resume_socket so ro (c\<lparr>kServerName := x\<rparr>)))
     \<or> (\<exists>r. ro = Some r \<and> write_result r c (step_state (resume_socket so ro (c\<lparr>kServerName := x\<rparr>))))"
    for x
    using resume_socket_result [of ro "c\<lparr>kServerName := x\<rparr>" so] assms by simp
  show ?thesis
    using a resume_socket_result [OF assms, of so]
    by (auto simp: resume_servername_def Let_def split: option.splits)
qed

lemma resume_pick_result: "pick_result c (step_state (resume_pick so c))"
proof -
  have "js_index (kQueue c) (kPendingIdx c) = Some r \<Longrightarrow> kPending c > 0" for r
    using js_index_Some [of "kQueue c" "kPendingIdx c" r] by (simp add: kPending_def)
  with resume_servername_result [of "js_index (kQueue c) (kPendingIdx c)" c so]
  show ?thesis
    by (auto simp: resume_pick_def pick_result_def)
qed

lemma resume_drain_result:
  "\<exists>v. (v = kNeedDrain c \<or> v \<le> 2)
       \<and> pick_result (c\<lparr>kNeedDrain := v\<rparr>) (step_state (resume_drain sync so c))"
proof -
  have q: "quiet (c\<lparr>kNeedDrain := v\<rparr>) (c\<lparr>kNeedDrain := v, ticks := t\<rparr>)" for v t
    by (simp add: quiet_def)
  have q': "quiet (c\<lparr>kNeedDrain := 0\<rparr>) (emitDrain c)"
    by (simp add: quiet_def emitDrain_def)
  consider (busy) "kBusy c" | (drain) "\<not> kBusy c" "kNeedDrain c = 2" | (idle) "\<not> kBusy c" "kNeedDrain c \<noteq> 2"
    by blast
  then show ?thesis
  proof cases
    case busy
    with resume_pick_result [of "c\<lparr>kNeedDrain := 2\<rparr>" so] show ?thesis
      by (auto simp: resume_drain_def intro!: exI [of _ 2])
  next
    case drain
    show ?thesis
    proof (cases sync)
      case True
      with drain q [of 1] show ?thesis
        by (auto simp: resume_drain_def pick_result_def intro!: exI [of _ 1])
    next
      case False
      with drain q' show ?thesis
        by (auto simp: resume_drain_def pick_result_def intro!: exI [of _ 0])
    qed
  next
    case idle
    with resume_pick_result [of c so] show ?thesis
      by (auto simp: resume_drain_def intro!: exI [of _ "kNeedDrain c"])
  qed
qed

lemma fail_all_fields:
  "kQueue (state_of (fail_all e rs c)) = kQueue c"
  "kPendingIdx (state_of (fail_all e rs c)) = kPendingIdx c"
  "kRunningIdx (state_of (fail_all e rs c)) = kRunningIdx c"
  "kNeedDrain (state_of (fail_all e rs c)) = kNeedDrain c"
  "kPipelining (state_of (fail_all e rs c)) = kPipelining c"
  "kResuming (state_of (fail_all e rs c)) = kResuming c"
  "conf (state_of (fail_all e rs c)) = conf c"
  "kDestroyed (state_of (fail_all e rs c)) = kDestroyed c"
  using fail_all_same [of c e rs] by (simp_all add: same_queue_def)

lemma destroy_core_result: "destroy_result c (state_of (destroy_core err c))"
proof -
  define e where "e = (case err of None \<Rightarrow> ClientDestroyedError | Some x \<Rightarrow> x)"
  define c0 where "c0 = c\<lparr>kQueue := fst (splice_from (kQueue c) (kPendingIdx c))\<rparr>"
  define c1 where "c1 = state_of (fail_all e (snd (splice_from (kQueue c) (kPendingIdx c))) c0)"
  have d: "destroy_result c c1"
    by (simp add: destroy_result_def c1_def fail_all_fields c0_def)
  have x: "destroy_result c c1 \<Longrightarrow> destroy_result c (c1\<lparr>kClosed := a, kDestroyed := True\<rparr>)" for a
    by (simp add: destroy_result_def)
  have y: "destroy_result c c2 \<Longrightarrow> destroy_result c (c2\<lparr>kOnDestroyed := b\<rparr>)" for b c2
    by (simp add: destroy_result_def)
  have z: "destroy_result c c2 \<Longrightarrow> destroy_result c (c2\<lparr>kSocket := b\<rparr>)"
      "destroy_result c c2 \<Longrightarrow> destroy_result c (c2\<lparr>ticks := t\<rparr>)" for b t c2
    by (simp_all add: destroy_result_def)
  show ?thesis
    unfolding destroy_core_def Let_def e_def [symmetric] c0_def [symmetric]
    using d x y z
    by (cases "fail_all e (snd (splice_from (kQueue c) (kPendingIdx c))) c0")
       (auto simp: c1_def split: option.splits)
qed

lemma resume_step_result: "step_result c (step_state (resume_step sync c))"
proof -
  consider (dead) "kDestroyed c" | (closing) "\<not> kDestroyed c" "kClosed c \<and> kSize c = 0"
    | (run) "\<not> kDestroyed c" "\<not> (kClosed c \<and> kSize c = 0)" by blast
  then show ?thesis
  proof cases
    case dead
    then have "step_state (resume_step sync c) = c" by (simp add: resume_step_def)
    moreover have "pick_result (c\<lparr>kNeedDrain := kNeedDrain c\<rparr>) c"
      by (simp add: pick_result_def quiet_def)
    ultimately show ?thesis unfolding step_result_def by auto
  next
    case closing
    then have "step_state (resume_step sync c) = state_of (destroy_core None c)"
      by (cases "destroy_core None c") (simp_all add: resume_step_def)
    with destroy_core_result [of c None] show ?thesis by (simp add: step_result_def)
  next
    case run
    show ?thesis
    proof (cases "kSocket c")
      case None
      with run resume_drain_result [of c sync None] show ?thesis
        by (auto simp: resume_step_def step_result_def)
    next
      case (Some s)
      show ?thesis
      proof (cases "resume_timers c s")
        case (Thrown e s')
        have "pick_result (c\<lparr>kNeedDrain := kNeedDrain c\<rparr>) (c\<lparr>kSocket := Some s'\<rparr>)"
          by (simp add: pick_result_def quiet_def)
        with run Some Thrown show ?thesis
          by (auto simp: resume_step_def step_result_def)
      next
        case (Done s')
        from resume_drain_result [of "c\<lparr>kSocket := Some s'\<rparr>" sync "Some s'"]
        obtain v where v: "v = kNeedDrain c \<or> v \<le> 2"
          "pick_result (c\<lparr>kSocket := Some s', kNeedDrain := v\<rparr>)
             (step_state (resume_drain sync (Some s') (c\<lparr>kSocket := Some s'\<rparr>)))"
          by auto
        have "c\<lparr>kSocket := Some s', kNeedDrain := v\<rparr> = (c\<lparr>kNeedDrain := v\<rparr>)\<lparr>kSocket := Some s'\<rparr>"
          by simp
        with v(2) have "pick_result (c\<lparr>kNeedDrain := v\<rparr>)
             (step_state (resume_drain sync (Some s') (c\<lparr>kSocket := Some s'\<rparr>)))"
          by (simp only: pick_result_simps)
        with run Some Done v(1) show ?thesis
          by (auto simp: resume_step_def step_result_def)
      qed
    qed
  qed
qed

text \<open>An invariant of the loop is a property every pass keeps.\<close>

lemma resume_loop_invariant:
  assumes "P c" and "\<And>c c'. P c \<Longrightarrow> step_result c c' \<Longrightarrow> P c'"
  shows "P (state_of (resume_loop sync c))"
  using assms(1)
proof (induction sync c rule: resume_loop.induct)
  case (1 sync c)
  from assms(2) [OF "1.prems" resume_step_result [of c sync]]
  have p: "P (step_state (resume_step sync c))" .
  show ?case
  proof (cases "resume_step sync c")
    case (Continue c')
    with p "1.IH" [of c'] show ?thesis by (simp add: resume_loop.simps [of sync c])
  next
    case (Return c')
    with p show ?thesis by (simp add: resume_loop.simps [of sync c])
  next
    case (Throw e c')
    with p show ?thesis by (simp add: resume_loop.simps [of sync c])
  qed
qed

section \<open>The indices and the number of running requests\<close>

lemma run_bound_simps [simp]:
  "run_bound b (c\<lparr>kNeedDrain := v\<rparr>) = run_bound b c"
  "run_bound b (c\<lparr>kResuming := n\<rparr>) = run_bound b c"
  "run_bound b (c\<lparr>kSocket := s\<rparr>) = run_bound b c"
  "run_bound b (c\<lparr>ticks := t\<rparr>) = run_bound b c"
  "run_bound b (c\<lparr>emitted := e\<rparr>) = run_bound b c"
  "run_bound b (c\<lparr>trace := tr\<rparr>) = run_bound b c"
  "run_bound b (c\<lparr>fresh := f\<rparr>) = run_bound b c"
  "run_bound b (c\<lparr>kClosed := x\<rparr>) = run_bound b c"
  "run_bound b (c\<lparr>kOnDestroyed := d\<rparr>) = run_bound b c"
  by (simp_all add: run_bound_def idx_inv_def kRunning_def pipelining_or_1_def)

lemma run_bound_own: "idx_inv c \<Longrightarrow> run_bound (kRunning c) c"
  by (simp add: run_bound_def)

lemma run_bound_idx: "run_bound b c \<Longrightarrow> idx_inv c"
  by (simp add: run_bound_def)

lemma queue_inv_bound: "queue_inv c = run_bound 0 c"
  by (auto simp: queue_inv_def run_bound_def idx_inv_def pipelining_or_1_def)

lemma write_result_run_bound:
  assumes "run_bound b c" "kPending c > 0" "kRunning c < pipelining_or_1 c" "write_result r c c'"
  shows "run_bound b c'"
  using assms
  by (auto simp: run_bound_def idx_inv_def write_result_def kPending_def kRunning_def
      pipelining_or_1_def split: if_splits)

lemma pick_result_run_bound:
  assumes "run_bound b c" "pick_result c c'"
  shows "run_bound b c'"
proof -
  have "quiet c c' \<Longrightarrow> run_bound b c'"
    using assms(1)
    by (auto simp: quiet_def run_bound_def idx_inv_def kRunning_def pipelining_or_1_def
        split: if_splits)
  with assms write_result_run_bound [where c = c and c' = c' and b = b] show ?thesis
    by (auto simp: pick_result_def)
qed

lemma destroy_result_run_bound:
  assumes "run_bound b c" "destroy_result c c'"
  shows "run_bound b c'"
  using assms
  by (auto simp: run_bound_def idx_inv_def destroy_result_def splice_from_def js_start_def
      kRunning_def pipelining_or_1_def split: if_splits)

lemma step_result_run_bound:
  assumes "run_bound b c" "step_result c c'"
  shows "run_bound b c'"
  using assms pick_result_run_bound [of b "c\<lparr>kNeedDrain := v\<rparr>" c' for v]
    destroy_result_run_bound [of b c c']
  by (auto simp: step_result_def)

lemma compact_run_bound: "run_bound b c \<Longrightarrow> run_bound b (compact c)"
  by (auto simp: run_bound_def idx_inv_def compact_def splice_head_def kRunning_def
      pipelining_or_1_def split: if_splits)

lemma resume_run_bound: "run_bound b c \<Longrightarrow> run_bound b (state_of (resume sync c))"
proof -
  assume a: "run_bound b c"
  then have "run_bound b (c\<lparr>kResuming := 2\<rparr>)" by simp
  then have l: "run_bound b (state_of (resume_loop sync (c\<lparr>kResuming := 2\<rparr>)))"
    by (rule resume_loop_invariant [where P = "run_bound b"]) (rule step_result_run_bound)
  show ?thesis
  proof (cases "resume_loop sync (c\<lparr>kResuming := 2\<rparr>)")
    case (Done c1)
    with l have "run_bound b (compact (c1\<lparr>kResuming := 0\<rparr>))"
      by (simp add: compact_run_bound)
    with a Done show ?thesis by (simp add: resume_def)
  next
    case (Thrown e c1)
    with a l show ?thesis by (simp add: resume_def)
  qed
qed

lemma destroy_core_run_bound: "run_bound b c \<Longrightarrow> run_bound b (state_of (destroy_core err c))"
  using destroy_result_run_bound [OF _ destroy_core_result] .

lemma destroy_run_bound: "run_bound b c \<Longrightarrow> run_bound b (state_of (destroy err c))"
proof -
  assume a: "run_bound b c"
  show ?thesis
  proof (cases "kDestroyed c")
    case True
    with a show ?thesis by (simp add: destroy_def destroy_again_def split: option.splits)
  next
    case False
    show ?thesis
    proof (cases "destroy_core err c")
      case (Done c1)
      with destroy_core_run_bound [OF a, of err] resume_run_bound [of b c1 False] False
      show ?thesis by (simp add: destroy_def)
    next
      case (Thrown e c1)
      with destroy_core_run_bound [OF a, of err] False show ?thesis by (simp add: destroy_def)
    qed
  qed
qed

lemma close_run_bound: "run_bound b c \<Longrightarrow> run_bound b (state_of (close c))"
  using destroy_run_bound [of b "c\<lparr>kClosed := True\<rparr>" None]
  by (auto simp: close_def Let_def split: option.splits)

lemma enqueue_run_bound: "run_bound b c \<Longrightarrow> run_bound b (state_of (enqueue r c))"
proof -
  assume a: "run_bound b c"
  then have p: "run_bound b (c\<lparr>kQueue := kQueue c @ [Some r]\<rparr>)"
    by (auto simp: run_bound_def idx_inv_def kRunning_def pipelining_or_1_def split: if_splits)
  define c1 where "c1 = c\<lparr>kQueue := kQueue c @ [Some r]\<rparr>"
  from p resume_run_bound [of b c1 True] have q: "run_bound b (state_of (resume True c1))"
    by (simp add: c1_def)
  show ?thesis
    using a p q
    unfolding enqueue_def Let_def c1_def [symmetric]
    by (cases "resume True c1") (auto simp: c1_def)
qed

lemma dispatch_run_bound:
  "run_bound b c \<Longrightarrow> run_bound b (dispatched_client (dispatch Request oo h c))"
proof -
  assume a: "run_bound b c"
  have t: "run_bound b (state_of (dispatch_try Request oo h c))"
    using a enqueue_run_bound [OF a]
    by (auto simp: dispatch_try_def split: option.splits sum.splits)
  show ?thesis
    using a t
    by (cases "dispatch_try Request oo h c") (auto simp: dispatch_def dispatched_client_def)
qed

lemma run_task_run_bound: "run_bound b c \<Longrightarrow> run_bound b (state_of (run_task t c))"
  using resume_run_bound [of b c False]
  by (cases t) (auto simp: run_task_def emitDrain_def onDestroyed_def split: option.splits)

lemma onSocketConnect_run_bound:
  "run_bound b c \<Longrightarrow> run_bound b (state_of (onSocketConnect c))"
proof (cases "kSocket c")
  case None
  assume "run_bound b c"
  with None show ?thesis by (simp add: onSocketConnect_def)
next
  case (Some s)
  assume "run_bound b c"
  then have "run_bound b (c\<lparr>kSocket := Some (s\<lparr>kConnecting := False\<rparr>),
                          emitted := emitted c @ [EConnect]\<rparr>)" by simp
  from resume_run_bound [OF this] Some show ?thesis by (simp add: onSocketConnect_def)
qed

lemma set_pipelining_run_bound:
  assumes "run_bound b c"
  shows "run_bound (max b (pipelining_or_1 c)) (state_of (set_pipelining v c))"
proof -
  from assms have "run_bound (max b (pipelining_or_1 c)) (c\<lparr>kPipelining := v\<rparr>)"
    by (auto simp: run_bound_def idx_inv_def kRunning_def)
  then show ?thesis unfolding set_pipelining_def by (rule resume_run_bound)
qed

lemma retire_head_run_bound:
  assumes "run_bound b c" "kRunning c > 0"
  shows "run_bound b (retire_head c)"
  using assms
  by (auto simp: run_bound_def idx_inv_def kRunning_def retire_head_def js_set_def
      pipelining_or_1_def)

text \<open>The error event of the socket keeps the indices in order.\<close>

lemma fail_pending_idx:
  assumes "idx_inv c" "kPending c > 0"
  shows "idx_inv (fail_pending err r c)"
  using assms by (auto simp: idx_inv_def kPending_def)

lemma fail_matching_idx: "idx_inv c \<Longrightarrow> idx_inv (state_of (fail_matching err c))"
proof (induction err c rule: fail_matching.induct)
  case (1 err c)
  show ?case
  proof (cases "kPending c > 0")
    case False
    with "1.prems" show ?thesis by (simp add: fail_matching.simps)
  next
    case True
    show ?thesis
    proof (cases "js_index (kQueue c) (kPendingIdx c)")
      case None
      with True "1.prems" show ?thesis by (simp add: fail_matching.simps)
    next
      case (Some r)
      show ?thesis
      proof (cases "servername r = kServerName c")
        case False
        with True Some "1.prems" show ?thesis by (simp add: fail_matching.simps)
      next
        case same: True
        from "1.IH" [OF True Some same fail_pending_idx [OF "1.prems" True]] True Some same
        show ?thesis by (simp add: fail_matching.simps [of err c])
      qed
    qed
  qed
qed

lemma splice_all_state:
  "state_of (case fail_all err rs c of Thrown e c1 \<Rightarrow> Thrown e c1
             | Done c1 \<Rightarrow> if kSize c1 \<noteq> 0 then Thrown AssertionError c1 else Done c1)
     = state_of (fail_all err rs c)"
  by (cases "fail_all err rs c") simp_all

lemma onSocketError_idx: "idx_inv c \<Longrightarrow> idx_inv (state_of (onSocketError err c))"
proof (cases "kSocket c")
  case None
  assume "idx_inv c"
  with None show ?thesis by (simp add: onSocketError_def)
next
  case (Some s)
  assume a: "idx_inv c"
  define c0 where "c0 = c\<lparr>kSocket := Some (s\<lparr>kError := Some err\<rparr>)\<rparr>"
  from a have i0: "idx_inv c0" by (simp add: c0_def idx_inv_def)
  have sp: "idx_inv (state_of (fail_all err (snd (splice_from (kQueue c0) (kRunningIdx c0)))
        (c0\<lparr>kQueue := fst (splice_from (kQueue c0) (kRunningIdx c0))\<rparr>)))"
    if "kRunning c0 = 0"
    using i0 that
    by (auto simp: idx_inv_def fail_all_fields kRunning_def splice_from_def js_start_def)
  from i0 fail_matching_idx [OF i0, of err] sp Some show ?thesis
    by (auto simp: onSocketError_def Let_def c0_def [symmetric] splice_all_state
        simp del: fail_matching.simps)
qed

text \<open>An error other than the one for a certificate keeps the bound as well.\<close>

lemma onSocketError_run_bound:
  assumes "run_bound b c" "err_code err \<noteq> ''ERR_TLS_CERT_ALTNAME_INVALID''"
  shows "run_bound b (state_of (onSocketError err c))"
proof (cases "kSocket c")
  case None
  with assms show ?thesis by (simp add: onSocketError_def)
next
  case (Some s)
  define c0 where "c0 = c\<lparr>kSocket := Some (s\<lparr>kError := Some err\<rparr>)\<rparr>"
  from assms(1) have i0: "run_bound b c0" by (simp add: c0_def)
  have sp: "run_bound b (state_of (fail_all err (snd (splice_from (kQueue c0) (kRunningIdx c0)))
        (c0\<lparr>kQueue := fst (splice_from (kQueue c0) (kRunningIdx c0))\<rparr>)))"
    if "kRunning c0 = 0"
    using i0 that
    by (auto simp: run_bound_def idx_inv_def fail_all_fields kRunning_def splice_from_def
        js_start_def pipelining_or_1_def)
  from i0 sp Some assms(2) show ?thesis
    by (auto simp: onSocketError_def Let_def c0_def [symmetric] splice_all_state)
qed

section \<open>Serialization of requests that cannot be pipelined\<close>

lemma list_all_tl_take_drop:
  assumes "k + n \<le> length xs"
  shows "list_all P (tl (take n (drop k xs))) = (\<forall>i. k < i \<and> i < k + n \<longrightarrow> P (xs ! i))"
proof
  assume a: "list_all P (tl (take n (drop k xs)))"
  show "\<forall>i. k < i \<and> i < k + n \<longrightarrow> P (xs ! i)"
  proof (intro allI impI)
    fix i assume i: "k < i \<and> i < k + n"
    define j where "j = i - k - 1"
    from i have j: "Suc j < n" "i = k + Suc j" unfolding j_def by linarith+
    with assms have "j < length (tl (take n (drop k xs)))" by simp
    with a have "P (tl (take n (drop k xs)) ! j)" by (simp add: list_all_length)
    with j assms show "P (xs ! i)" by (simp add: nth_tl)
  qed
next
  assume a: "\<forall>i. k < i \<and> i < k + n \<longrightarrow> P (xs ! i)"
  show "list_all P (tl (take n (drop k xs)))"
    unfolding list_all_length
  proof (intro allI impI)
    fix j assume "j < length (tl (take n (drop k xs)))"
    with assms have j: "Suc j < n" by simp
    with a have "P (xs ! (k + Suc j))" by simp
    with j assms show "P (tl (take n (drop k xs)) ! j)" by (simp add: nth_tl)
  qed
qed

lemma excl_inv_nth:
  "excl_inv c =
     (idx_inv c \<and> (\<forall>i. nat (kRunningIdx c) < i \<and> i < nat (kPendingIdx c)
                      \<longrightarrow> slot_ok may_follow (kQueue c ! i)))"
proof (cases "idx_inv c")
  case False
  then show ?thesis by (simp add: excl_inv_def)
next
  case True
  then have "nat (kRunningIdx c) + nat (kRunning c) \<le> length (kQueue c)"
    and "nat (kRunningIdx c) + nat (kRunning c) = nat (kPendingIdx c)"
    by (auto simp: idx_inv_def kRunning_def)
  with list_all_tl_take_drop [of "nat (kRunningIdx c)" "nat (kRunning c)" "kQueue c"
      "slot_ok may_follow"] True
  show ?thesis by (simp add: excl_inv_def running_slots_def)
qed

lemma excl_inv_simps [simp]:
  "excl_inv (c\<lparr>kNeedDrain := v\<rparr>) = excl_inv c"
  "excl_inv (c\<lparr>kResuming := n\<rparr>) = excl_inv c"
  "excl_inv (c\<lparr>kSocket := s\<rparr>) = excl_inv c"
  "excl_inv (c\<lparr>ticks := t\<rparr>) = excl_inv c"
  "excl_inv (c\<lparr>emitted := e\<rparr>) = excl_inv c"
  "excl_inv (c\<lparr>trace := tr\<rparr>) = excl_inv c"
  "excl_inv (c\<lparr>fresh := f\<rparr>) = excl_inv c"
  "excl_inv (c\<lparr>kClosed := b\<rparr>) = excl_inv c"
  "excl_inv (c\<lparr>kOnDestroyed := d\<rparr>) = excl_inv c"
  by (simp_all add: excl_inv_def idx_inv_def running_slots_def kRunning_def)

lemma write_result_excl_inv:
  assumes "excl_inv c" "kPending c > 0" "write_result r c c'"
  shows "excl_inv c'"
proof -
  define n where "n = nat (kPendingIdx c)"
  from assms(1) have idx: "idx_inv c"
    and sl: "\<And>i. nat (kRunningIdx c) < i \<Longrightarrow> i < n \<Longrightarrow> slot_ok may_follow (kQueue c ! i)"
    by (simp_all add: excl_inv_nth n_def)
  from idx assms(2) have rng: "0 \<le> kRunningIdx c" "kRunningIdx c \<le> kPendingIdx c"
    "n < length (kQueue c)" "kPendingIdx c = int n"
    by (auto simp: idx_inv_def kPending_def n_def)
  from assms(3) obtain r' where ri: "kRunningIdx c' = kRunningIdx c"
    and w: "(kQueue c' = (kQueue c)[n := Some r']
              \<and> (kPendingIdx c' = kPendingIdx c
                  \<or> (kPendingIdx c' = kPendingIdx c + 1 \<and> (kRunning c \<le> 0 \<or> pipelineable r'))))
          \<or> (kQueue c' = take n (kQueue c) @ drop (Suc n) (kQueue c)
              \<and> kPendingIdx c' = kPendingIdx c)"
    unfolding write_result_def n_def by blast
  from w consider
      (stay) "kQueue c' = (kQueue c)[n := Some r']" "kPendingIdx c' = kPendingIdx c"
    | (adv) "kQueue c' = (kQueue c)[n := Some r']" "kPendingIdx c' = kPendingIdx c + 1"
        "kRunning c \<le> 0 \<or> pipelineable r'"
    | (rm) "kQueue c' = take n (kQueue c) @ drop (Suc n) (kQueue c)"
        "kPendingIdx c' = kPendingIdx c"
    by blast
  then show ?thesis
  proof cases
    case stay
    with ri rng sl show ?thesis by (simp add: excl_inv_nth idx_inv_def)
  next
    case adv
    have "slot_ok may_follow (kQueue c' ! i)"
      if "nat (kRunningIdx c) < i" "i < Suc n" for i
    proof (cases "i = n")
      case True
      with that rng have "kRunning c > 0" by (simp add: kRunning_def)
      with adv(3) have "pipelineable r'" by simp
      with True adv(1) rng show ?thesis by (simp add: slot_ok_def may_follow_def)
    next
      case False
      with that have "i < n" by simp
      with sl [OF that(1) this] adv(1) show ?thesis by simp
    qed
    moreover from adv(2) rng have "nat (kPendingIdx c') = Suc n" by simp
    ultimately show ?thesis using ri rng adv(1,2)
      by (simp add: excl_inv_nth idx_inv_def)
  next
    case rm
    with ri rng sl show ?thesis by (simp add: excl_inv_nth idx_inv_def nth_append)
  qed
qed

lemma quiet_excl_inv: "excl_inv c \<Longrightarrow> quiet c c' \<Longrightarrow> excl_inv c'"
  by (simp add: excl_inv_def idx_inv_def running_slots_def kRunning_def quiet_def)

lemma pick_result_excl_inv:
  assumes "excl_inv c" "pick_result c c'"
  shows "excl_inv c'"
  using assms quiet_excl_inv [of c c'] write_result_excl_inv [of c _ c']
  unfolding pick_result_def by blast

lemma destroy_result_excl_inv:
  assumes "excl_inv c" "destroy_result c c'"
  shows "excl_inv c'"
proof -
  from assms(1) have idx: "idx_inv c" by (simp add: excl_inv_def)
  then have "js_start (length (kQueue c)) (kPendingIdx c) = nat (kPendingIdx c)"
    by (auto simp: idx_inv_def js_start_def)
  with assms(2) have "kQueue c' = take (nat (kPendingIdx c)) (kQueue c)"
    "kRunningIdx c' = kRunningIdx c" "kPendingIdx c' = kPendingIdx c"
    by (simp_all add: destroy_result_def splice_from_def)
  with assms(1) show ?thesis
    by (auto simp: excl_inv_nth idx_inv_def)
qed

lemma step_result_excl_inv:
  assumes "excl_inv c" "step_result c c'"
  shows "excl_inv c'"
proof -
  from assms(2) consider v where "pick_result (c\<lparr>kNeedDrain := v\<rparr>) c'" | "destroy_result c c'"
    unfolding step_result_def by blast
  then show ?thesis
  proof cases
    case 1
    with assms(1) pick_result_excl_inv [of "c\<lparr>kNeedDrain := v\<rparr>" c'] show ?thesis by simp
  next
    case 2
    with assms(1) show ?thesis by (rule destroy_result_excl_inv)
  qed
qed

lemma compact_excl_inv: "excl_inv c \<Longrightarrow> excl_inv (compact c)"
proof (cases "kRunningIdx c > 256")
  case False
  assume "excl_inv c"
  with False show ?thesis by (simp add: compact_def)
next
  case True
  assume a: "excl_inv c"
  then have idx: "idx_inv c" by (simp add: excl_inv_def)
  have "running_slots (compact c) = running_slots c"
    using True idx
    by (simp add: compact_def running_slots_def kRunning_def splice_head_def)
  moreover have "idx_inv (compact c)"
    using True idx by (auto simp: compact_def idx_inv_def splice_head_def)
  ultimately show ?thesis using a by (simp add: excl_inv_def)
qed

lemma resume_excl_inv: "excl_inv c \<Longrightarrow> excl_inv (state_of (resume sync c))"
proof -
  assume a: "excl_inv c"
  then have "excl_inv (c\<lparr>kResuming := 2\<rparr>)" by simp
  then have b: "excl_inv (state_of (resume_loop sync (c\<lparr>kResuming := 2\<rparr>)))"
    by (rule resume_loop_invariant [where P = excl_inv]) (rule step_result_excl_inv)
  show ?thesis
  proof (cases "resume_loop sync (c\<lparr>kResuming := 2\<rparr>)")
    case (Done c1)
    with b have "excl_inv (compact (c1\<lparr>kResuming := 0\<rparr>))"
      by (simp add: compact_excl_inv)
    with a Done show ?thesis by (simp add: resume_def)
  next
    case (Thrown e c1)
    with a b show ?thesis by (simp add: resume_def)
  qed
qed

lemma destroy_core_excl_inv: "excl_inv c \<Longrightarrow> excl_inv (state_of (destroy_core err c))"
  using destroy_result_excl_inv [OF _ destroy_core_result] .

lemma destroy_excl_inv: "excl_inv c \<Longrightarrow> excl_inv (state_of (destroy err c))"
proof -
  assume a: "excl_inv c"
  show ?thesis
  proof (cases "kDestroyed c")
    case True
    with a show ?thesis by (simp add: destroy_def destroy_again_def split: option.splits)
  next
    case False
    show ?thesis
    proof (cases "destroy_core err c")
      case (Done c1)
      with destroy_core_excl_inv [OF a, of err] resume_excl_inv [of c1 False] False
      show ?thesis by (simp add: destroy_def)
    next
      case (Thrown e c1)
      with destroy_core_excl_inv [OF a, of err] False show ?thesis by (simp add: destroy_def)
    qed
  qed
qed

lemma close_excl_inv: "excl_inv c \<Longrightarrow> excl_inv (state_of (close c))"
  using destroy_excl_inv [of "c\<lparr>kClosed := True\<rparr>" None]
  by (auto simp: close_def Let_def split: option.splits)

lemma enqueue_excl_inv: "excl_inv c \<Longrightarrow> excl_inv (state_of (enqueue r c))"
proof -
  assume a: "excl_inv c"
  then have p: "excl_inv (c\<lparr>kQueue := kQueue c @ [Some r]\<rparr>)"
    by (auto simp: excl_inv_nth idx_inv_def nth_append)
  define c1 where "c1 = c\<lparr>kQueue := kQueue c @ [Some r]\<rparr>"
  from p resume_excl_inv [of c1 True] have q: "excl_inv (state_of (resume True c1))"
    by (simp add: c1_def)
  show ?thesis
    using a p q
    unfolding enqueue_def Let_def c1_def [symmetric]
    by (cases "resume True c1") (auto simp: c1_def)
qed

lemma dispatch_excl_inv:
  "excl_inv c \<Longrightarrow> excl_inv (dispatched_client (dispatch Request oo h c))"
proof -
  assume a: "excl_inv c"
  have t: "excl_inv (state_of (dispatch_try Request oo h c))"
    using a enqueue_excl_inv [OF a]
    by (auto simp: dispatch_try_def split: option.splits sum.splits)
  show ?thesis
    using a t
    by (cases "dispatch_try Request oo h c") (auto simp: dispatch_def dispatched_client_def)
qed

lemma run_task_excl_inv: "excl_inv c \<Longrightarrow> excl_inv (state_of (run_task t c))"
  using resume_excl_inv [of c False]
  by (cases t) (auto simp: run_task_def emitDrain_def onDestroyed_def split: option.splits)

lemma onSocketConnect_excl_inv: "excl_inv c \<Longrightarrow> excl_inv (state_of (onSocketConnect c))"
proof (cases "kSocket c")
  case None
  assume "excl_inv c"
  with None show ?thesis by (simp add: onSocketConnect_def)
next
  case (Some s)
  assume "excl_inv c"
  then have "excl_inv (c\<lparr>kSocket := Some (s\<lparr>kConnecting := False\<rparr>),
                          emitted := emitted c @ [EConnect]\<rparr>)" by simp
  from resume_excl_inv [OF this] Some show ?thesis by (simp add: onSocketConnect_def)
qed


lemma close_fail_idx:
  assumes "idx_inv c" and "close_fail err c = Done c1"
  shows "0 \<le> kRunningIdx c1 \<and> kRunningIdx c1 \<le> int (length (kQueue c1))"
proof -
  consider (dead) "kDestroyed c" | (head) "\<not> kDestroyed c" "kRunning c > 0 \<and> err_code err \<noteq> ''UND_ERR_INFO''"
    | (none) "\<not> kDestroyed c" "\<not> (kRunning c > 0 \<and> err_code err \<noteq> ''UND_ERR_INFO'')" by blast
  then show ?thesis
  proof cases
    case dead
    with assms(2) have "c1 = state_of (fail_all err (snd (splice_from (kQueue c) (kRunningIdx c)))
        (c\<lparr>kQueue := fst (splice_from (kQueue c) (kRunningIdx c))\<rparr>))"
      by (auto simp: close_fail_def Let_def split: if_splits)
    then have "kQueue c1 = fst (splice_from (kQueue c) (kRunningIdx c))"
      "kRunningIdx c1 = kRunningIdx c"
      by (simp_all add: fail_all_fields)
    with assms(1) show ?thesis
      by (auto simp: idx_inv_def splice_from_def js_start_def split: if_splits)
  next
    case head
    with assms(2) have "c1 = state_of (fail_head err c)" by (simp add: close_fail_def)
    moreover have "kRunningIdx (state_of (fail_head err c)) = kRunningIdx c + 1"
      "length (kQueue (state_of (fail_head err c))) = length (kQueue c)"
      using assms(1) head
      by (auto simp: fail_head_def Let_def js_set_def idx_inv_def kRunning_def
          split: option.splits)
    ultimately show ?thesis using assms(1) head
      by (auto simp: idx_inv_def kRunning_def)
  next
    case none
    with assms show ?thesis
      by (auto simp: close_fail_def idx_inv_def split: if_splits)
  qed
qed

lemma empty_excl_inv:
  assumes "0 \<le> kRunningIdx c" "kRunningIdx c \<le> int (length (kQueue c))"
    "kPendingIdx c = kRunningIdx c"
  shows "excl_inv c"
  using assms by (simp add: excl_inv_def idx_inv_def running_slots_def kRunning_def)

lemma onSocketClose_excl_inv:
  assumes "excl_inv c" and "onSocketClose c = Done c'"
  shows "excl_inv c'"
proof (cases "kSocket c")
  case None
  with assms show ?thesis by (simp add: onSocketClose_def)
next
  case (Some s)
  from assms(2) Some obtain c1 err ev where c1: "close_fail err (c\<lparr>kSocket := None\<rparr>) = Done c1"
    and r: "resume False (c1\<lparr>kPendingIdx := kRunningIdx c1, emitted := ev\<rparr>) = Done c'"
    by (auto simp: onSocketClose_def Let_def split: outcome.splits)
  from assms(1) have "idx_inv (c\<lparr>kSocket := None\<rparr>)" by (simp add: excl_inv_def idx_inv_def)
  from close_fail_idx [OF this c1]
  have "excl_inv (c1\<lparr>kPendingIdx := kRunningIdx c1, emitted := ev\<rparr>)"
    by (simp add: empty_excl_inv)
  from resume_excl_inv [OF this, of False] r show ?thesis by simp
qed

text \<open>What the loop of \<^verbatim>\<open>onSocketError\<close> keeps: every slot it has stepped over holds a
  failed request.\<close>

lemma aborted_fail_request [simp]: "aborted (fst (fail_request err r c))"
  by (simp add: fail_request_def Request_onError_def destroy_request_def Let_def)

lemma fail_pending_queue:
  assumes "0 \<le> kPendingIdx c" "kPendingIdx c < int (length (kQueue c))"
  shows "\<exists>r'. aborted r' \<and> kQueue (fail_pending err r c) = (kQueue c)[nat (kPendingIdx c) := Some r']"
  using assms
  by (auto simp: fail_pending_def Let_def update_request_def
      intro!: exI [of _ "fst (fail_request err r (c\<lparr>kPendingIdx := kPendingIdx c + 1\<rparr>))"])

lemma fail_matching_inv:
  assumes "idx_inv c"
    and "\<forall>i. nat (kRunningIdx c) \<le> i \<and> i < nat (kPendingIdx c) \<longrightarrow> slot_ok may_follow (kQueue c ! i)"
  shows "excl_inv (state_of (fail_matching err c))"
  using assms
proof (induction err c rule: fail_matching.induct)
  case (1 err c)
  from "1.prems" have ex: "excl_inv c" by (simp add: excl_inv_nth)
  show ?case
  proof (cases "kPending c > 0")
    case False
    with ex show ?thesis by (simp add: fail_matching.simps)
  next
    case True
    show ?thesis
    proof (cases "js_index (kQueue c) (kPendingIdx c)")
      case None
      with True ex show ?thesis by (simp add: fail_matching.simps)
    next
      case (Some r)
      show ?thesis
      proof (cases "servername r = kServerName c")
        case False
        with True Some ex show ?thesis by (simp add: fail_matching.simps)
      next
        case same: True
        from js_index_Some [OF Some]
        have rng: "0 \<le> kPendingIdx c" "kPendingIdx c < int (length (kQueue c))" by auto
        from fail_pending_queue [OF rng, of err r] obtain r' where
          r': "aborted r'"
            "kQueue (fail_pending err r c) = (kQueue c)[nat (kPendingIdx c) := Some r']"
          by blast
        have i1: "idx_inv (fail_pending err r c)"
          using "1.prems"(1) rng by (auto simp: idx_inv_def)
        have i2: "\<forall>i. nat (kRunningIdx (fail_pending err r c)) \<le> i
                    \<and> i < nat (kPendingIdx (fail_pending err r c))
                  \<longrightarrow> slot_ok may_follow (kQueue (fail_pending err r c) ! i)"
        proof (intro allI impI)
          fix i
          assume i: "nat (kRunningIdx (fail_pending err r c)) \<le> i
                    \<and> i < nat (kPendingIdx (fail_pending err r c))"
          show "slot_ok may_follow (kQueue (fail_pending err r c) ! i)"
          proof (cases "i = nat (kPendingIdx c)")
            case True
            with r' rng show ?thesis by (simp add: slot_ok_def may_follow_def)
          next
            case False
            with i rng have "nat (kRunningIdx c) \<le> i \<and> i < nat (kPendingIdx c)" by auto
            with "1.prems"(2) False r'(2) show ?thesis by simp
          qed
        qed
        from "1.IH" [OF True Some same i1 i2] True Some same
        show ?thesis by (simp add: fail_matching.simps [of err c])
      qed
    qed
  qed
qed

lemma onSocketError_excl_inv:
  assumes "excl_inv c"
  shows "excl_inv (state_of (onSocketError err c))"
proof (cases "kSocket c")
  case None
  with assms show ?thesis by (simp add: onSocketError_def)
next
  case (Some s)
  define c0 where "c0 = c\<lparr>kSocket := Some (s\<lparr>kError := Some err\<rparr>)\<rparr>"
  from assms have e0: "excl_inv c0" by (simp add: c0_def)
  then have i0: "idx_inv c0" by (simp add: excl_inv_def)
  consider (alt) "err_code err = ''ERR_TLS_CERT_ALTNAME_INVALID''" "kRunning c0 \<noteq> 0"
    | (loop) "err_code err = ''ERR_TLS_CERT_ALTNAME_INVALID''" "kRunning c0 = 0"
    | (all) "err_code err \<noteq> ''ERR_TLS_CERT_ALTNAME_INVALID''"
        "kRunning c0 = 0 \<and> err_code err \<noteq> ''UND_ERR_INFO'' \<and> err_code err \<noteq> ''UND_ERR_SOCKET''"
    | (none) "err_code err \<noteq> ''ERR_TLS_CERT_ALTNAME_INVALID''"
        "\<not> (kRunning c0 = 0 \<and> err_code err \<noteq> ''UND_ERR_INFO'' \<and> err_code err \<noteq> ''UND_ERR_SOCKET'')"
    by blast
  then show ?thesis
  proof cases
    case alt
    with Some e0 show ?thesis by (simp add: onSocketError_def c0_def)
  next
    case loop
    from loop(2) have "\<forall>i. nat (kRunningIdx c0) \<le> i \<and> i < nat (kPendingIdx c0)
        \<longrightarrow> slot_ok may_follow (kQueue c0 ! i)"
      by (auto simp: kRunning_def)
    from fail_matching_inv [OF i0 this, of err] loop Some show ?thesis
      by (simp add: onSocketError_def c0_def)
  next
    case all
    define c1 where "c1 = state_of (fail_all err (snd (splice_from (kQueue c0) (kRunningIdx c0)))
        (c0\<lparr>kQueue := fst (splice_from (kQueue c0) (kRunningIdx c0))\<rparr>))"
    have f: "kQueue c1 = fst (splice_from (kQueue c0) (kRunningIdx c0))"
      "kRunningIdx c1 = kRunningIdx c0" "kPendingIdx c1 = kPendingIdx c0"
      by (simp_all add: c1_def fail_all_fields)
    with i0 all(2) have "excl_inv c1"
      by (intro empty_excl_inv)
         (auto simp: idx_inv_def kRunning_def splice_from_def js_start_def split: if_splits)
    moreover have "state_of (onSocketError err c) = c1"
      using Some all
      by (simp add: onSocketError_def Let_def c0_def [symmetric] c1_def split: outcome.splits)
    ultimately show ?thesis by simp
  next
    case none
    with Some e0 show ?thesis by (auto simp: onSocketError_def Let_def c0_def)
  qed
qed

lemma retire_head_excl_inv:
  assumes "excl_inv c" "kRunning c > 0"
  shows "excl_inv (retire_head c)"
proof -
  from assms have r: "0 \<le> kRunningIdx c" "kRunningIdx c < kPendingIdx c"
    "kPendingIdx c \<le> int (length (kQueue c))"
    by (auto simp: excl_inv_def idx_inv_def kRunning_def)
  then have q: "kQueue (retire_head c) = (kQueue c)[nat (kRunningIdx c) := None]"
    "kRunningIdx (retire_head c) = kRunningIdx c + 1"
    "kPendingIdx (retire_head c) = kPendingIdx c"
    by (simp_all add: retire_head_def js_set_def)
  from assms(1) have "\<forall>i. nat (kRunningIdx c) < i \<and> i < nat (kPendingIdx c)
                      \<longrightarrow> slot_ok may_follow (kQueue c ! i)"
    by (simp add: excl_inv_nth)
  with r q show ?thesis
    by (auto simp: excl_inv_nth idx_inv_def)
qed

text \<open>At most one running request is neither failed nor fit for pipelining: the head.\<close>

lemma filter_followers:
  assumes "list_all (slot_ok may_follow) xs" and "\<And>r. P r \<Longrightarrow> \<not> may_follow r"
  shows "filter (slot_is P) xs = []"
  using assms
  by (induction xs) (auto simp: slot_ok_def slot_is_def split: option.splits)

lemma excl_inv_count:
  assumes "excl_inv c" and "\<And>r. P r \<Longrightarrow> \<not> may_follow r"
  shows "count_slots P (running_slots c) \<le> 1"
proof (cases "running_slots c")
  case Nil
  then show ?thesis by (simp add: count_slots_def)
next
  case (Cons h t)
  with assms(1) have "list_all (slot_ok may_follow) t" by (simp add: excl_inv_def)
  from filter_followers [OF this assms(2)] Cons show ?thesis
    by (simp add: count_slots_def)
qed

lemma resume_write_refuses:
  assumes "kRunning c > 0"
    and "\<not> idempotent r \<or> truthy (upgrade r) \<or> http_method r = ''CONNECT''
         \<or> (isStream (body r) \<and> bodyLength (body r) \<noteq> Some 0)"
  shows "\<exists>c1. resume_write r c = Return c1 \<and> kPendingIdx c1 = kPendingIdx c
     \<and> kSocket c1 = kSocket c \<and> trace c1 = trace c"
proof (cases "\<not> idempotent r \<or> truthy (upgrade r) \<or> http_method r = ''CONNECT''")
  case True
  with assms(1) show ?thesis by (auto simp: resume_write_def)
next
  case False
  with assms(2) have s: "isStream (body r)" "bodyLength (body r) \<noteq> Some 0" by auto
  then have "drop_empty_stream r = r" by (simp add: drop_empty_stream_def)
  moreover have "trace (update_request (kPendingIdx c) r c) = trace c"
    by (simp add: update_request_def)
  ultimately show ?thesis using assms(1) s False
    by (simp add: resume_write_def Let_def)
qed

text \<open>
  C4, as the code has it. A new client satisfies the invariant that every request in the
  running region behind its head may be pipelined (it is idempotent, has no stream body,
  is no upgrade and no CONNECT) or has already been failed, and the invariant is kept by
  every public operation (dispatch, close, destroy, the setter of the pipelining factor),
  by every run of the scheduler, by the events of the socket (connect, error, close), by
  a waiting tick and by the retiring of the answered head. Under the invariant at most one
  request of the running region is not idempotent and not failed, and at most one has a
  stream body and is not failed. The scheduler leaves a request that is not idempotent, is
  an upgrade or a CONNECT, or has a stream body not known to be empty, unwritten in its
  slot while another request is running.
\<close>

theorem exclusive_running:
  "excl_inv (Client_new cf p)
   \<and> (excl_inv c \<longrightarrow>
        excl_inv (dispatched_client (dispatch Request oo h c))
        \<and> excl_inv (state_of (close c))
        \<and> excl_inv (state_of (destroy err c))
        \<and> excl_inv (state_of (set_pipelining v c))
        \<and> excl_inv (state_of (resume sync c))
        \<and> excl_inv (state_of (run_task t c))
        \<and> excl_inv (state_of (onSocketConnect c))
        \<and> excl_inv (state_of (onSocketError e c))
        \<and> (kRunning c > 0 \<longrightarrow> excl_inv (retire_head c))
        \<and> count_slots (\<lambda>r. \<not> idempotent r \<and> \<not> aborted r) (running_slots c) \<le> 1
        \<and> count_slots (\<lambda>r. isStream (body r) \<and> \<not> aborted r) (running_slots c) \<le> 1)
   \<and> (excl_inv c \<and> onSocketClose c = Done c' \<longrightarrow> excl_inv c')
   \<and> (kRunning c > 0
        \<and> (\<not> idempotent r \<or> truthy (upgrade r) \<or> http_method r = ''CONNECT''
            \<or> (isStream (body r) \<and> bodyLength (body r) \<noteq> Some 0))
      \<longrightarrow> (\<exists>c1. resume_write r c = Return c1 \<and> kPendingIdx c1 = kPendingIdx c
                 \<and> kSocket c1 = kSocket c \<and> trace c1 = trace c))"
proof (intro conjI impI)
  show "excl_inv (Client_new cf p)"
    by (simp add: excl_inv_def idx_inv_def Client_new_def running_slots_def kRunning_def)
next
  assume "excl_inv c"
  then show "excl_inv (dispatched_client (dispatch Request oo h c))"
    by (rule dispatch_excl_inv)
next
  assume "excl_inv c"
  then show "excl_inv (state_of (close c))" by (rule close_excl_inv)
next
  assume "excl_inv c"
  then show "excl_inv (state_of (destroy err c))" by (rule destroy_excl_inv)
next
  assume "excl_inv c"
  then have "excl_inv (c\<lparr>kPipelining := v\<rparr>)"
    by (simp add: excl_inv_def idx_inv_def running_slots_def kRunning_def)
  then show "excl_inv (state_of (set_pipelining v c))"
    unfolding set_pipelining_def by (rule resume_excl_inv)
next
  assume "excl_inv c"
  then show "excl_inv (state_of (resume sync c))" by (rule resume_excl_inv)
next
  assume "excl_inv c"
  then show "excl_inv (state_of (run_task t c))" by (rule run_task_excl_inv)
next
  assume "excl_inv c"
  then show "excl_inv (state_of (onSocketConnect c))" by (rule onSocketConnect_excl_inv)
next
  assume "excl_inv c"
  then show "excl_inv (state_of (onSocketError e c))" by (rule onSocketError_excl_inv)
next
  assume "excl_inv c" and "kRunning c > 0"
  then show "excl_inv (retire_head c)" by (rule retire_head_excl_inv)
next
  assume "excl_inv c"
  then show "count_slots (\<lambda>r. \<not> idempotent r \<and> \<not> aborted r) (running_slots c) \<le> 1"
    by (rule excl_inv_count) (simp add: may_follow_def pipelineable_def)
next
  assume "excl_inv c"
  then show "count_slots (\<lambda>r. isStream (body r) \<and> \<not> aborted r) (running_slots c) \<le> 1"
    by (rule excl_inv_count) (simp add: may_follow_def pipelineable_def)
next
  assume "excl_inv c \<and> onSocketClose c = Done c'"
  then show "excl_inv c'" using onSocketClose_excl_inv [of c c'] by simp
next
  assume a: "kRunning c > 0
        \<and> (\<not> idempotent r \<or> truthy (upgrade r) \<or> http_method r = ''CONNECT''
            \<or> (isStream (body r) \<and> bodyLength (body r) \<noteq> Some 0))"
  then have "kRunning c > 0" and "\<not> idempotent r \<or> truthy (upgrade r) \<or> http_method r = ''CONNECT''
            \<or> (isStream (body r) \<and> bodyLength (body r) \<noteq> Some 0)" by simp_all
  then show "\<exists>c1. resume_write r c = Return c1 \<and> kPendingIdx c1 = kPendingIdx c
                 \<and> kSocket c1 = kSocket c \<and> trace c1 = trace c"
    by (rule resume_write_refuses)
qed

theorem exclusive_running_witness:
  "excl_inv connected_post_gets
   \<and> map (map_option http_method) (running_slots connected_post_gets)
       = [Some ''POST'', Some ''GET'', Some ''GET'']
   \<and> excl_inv (dispatched_client
        (dispatch request_js (Some post_opts) plain_handler connected_post_gets))
   \<and> excl_inv (state_of (close connected_post_gets))
   \<and> excl_inv (state_of (destroy None connected_post_gets))
   \<and> excl_inv (state_of (resume False connected_post_gets))
   \<and> excl_inv (state_of (onSocketError (SocketError ''other side closed'') connected_post_gets))
   \<and> excl_inv (retire_head connected_post_gets)
   \<and> count_slots (\<lambda>r. \<not> idempotent r \<and> \<not> aborted r) (running_slots connected_post_gets) \<le> 1
   \<and> count_slots (\<lambda>r. isStream (body r) \<and> \<not> aborted r) (running_slots connected_post_gets) \<le> 1
   \<and> (\<exists>c1. resume_write (get_request 9\<lparr>idempotent := False\<rparr>) connected_post_gets = Return c1
          \<and> kPendingIdx c1 = kPendingIdx connected_post_gets
          \<and> kSocket c1 = kSocket connected_post_gets \<and> trace c1 = trace connected_post_gets)"
proof -
  have q: "excl_inv connected_post_gets" by code_simp
  have m: "map (map_option http_method) (running_slots connected_post_gets)
       = [Some ''POST'', Some ''GET'', Some ''GET'']" by code_simp
  have k: "kRunning connected_post_gets > 0" by code_simp
  have n: "\<not> idempotent (get_request 9\<lparr>idempotent := False\<rparr>)" by simp
  from exclusive_running [of default_config 3 connected_post_gets request_js "Some post_opts"
      plain_handler None 3 False TaskResume "SocketError ''other side closed''"
      connected_post_gets "get_request 9\<lparr>idempotent := False\<rparr>"]
  have "excl_inv connected_post_gets \<longrightarrow>
        excl_inv (dispatched_client
          (dispatch request_js (Some post_opts) plain_handler connected_post_gets))
        \<and> excl_inv (state_of (close connected_post_gets))
        \<and> excl_inv (state_of (destroy None connected_post_gets))
        \<and> excl_inv (state_of (resume False connected_post_gets))
        \<and> excl_inv (state_of (onSocketError (SocketError ''other side closed'') connected_post_gets))
        \<and> (kRunning connected_post_gets > 0 \<longrightarrow> excl_inv (retire_head connected_post_gets))
        \<and> count_slots (\<lambda>r. \<not> idempotent r \<and> \<not> aborted r) (running_slots connected_post_gets) \<le> 1
        \<and> count_slots (\<lambda>r. isStream (body r) \<and> \<not> aborted r) (running_slots connected_post_gets) \<le> 1"
    and "kRunning connected_post_gets > 0 \<and> \<not> idempotent (get_request 9\<lparr>idempotent := False\<rparr>)
      \<longrightarrow> (\<exists>c1. resume_write (get_request 9\<lparr>idempotent := False\<rparr>) connected_post_gets = Return c1
          \<and> kPendingIdx c1 = kPendingIdx connected_post_gets
          \<and> kSocket c1 = kSocket connected_post_gets \<and> trace c1 = trace connected_post_gets)"
    by blast+
  with q m k n show ?thesis by blast
qed

text \<open>
  The claim as written speaks of every request of the running region. A client for a TLS
  origin has two POST requests waiting while its socket connects; the socket reports a
  certificate that does not match the server name. The error handler fails both requests
  and steps \<open>kPendingIdx\<close> over them, so that until the close event the running region
  holds two requests that are not idempotent, neither of which was written.
\<close>

theorem altname_running_counterexample:
  "onSocketError (SystemError ''ERR_TLS_CERT_ALTNAME_INVALID'') tls_posts = Done altname_failed
   \<and> kRunning tls_posts = 0 \<and> kPending tls_posts = 2
   \<and> kRunning altname_failed = 2
   \<and> map (map_option (\<lambda>r. (http_method r, idempotent r, aborted r))) (running_slots altname_failed)
       = [Some (''POST'', False, True), Some (''POST'', False, True)]
   \<and> count_slots (\<lambda>r. \<not> idempotent r) (running_slots altname_failed) = 2
   \<and> map_option written (kSocket altname_failed) = Some []"
  by code_simp

section \<open>Properties of dispatch\<close>

lemma dispatch_try_rejected:
  "rejected Request oo h c = Some e \<Longrightarrow> dispatch_try Request oo h c = Thrown e c"
  by (auto simp: rejected_def dispatch_try_def enqueue_def
      split: option.splits sum.splits if_splits)

text \<open>
  C10. A handler that is no object makes \<^verbatim>\<open>dispatch\<close> throw InvalidArgumentError
  before anything else happens. For a handler object without \<^verbatim>\<open>onError\<close>, a request
  that is turned down (unreadable or invalid options, destroyed or closed client) makes
  it throw InvalidArgumentError too, and nothing is reported or queued. For a handler
  object with \<^verbatim>\<open>onError\<close>, \<^verbatim>\<open>dispatch\<close> never throws, and a request that is turned
  down is reported by one call of \<^verbatim>\<open>handler.onError\<close> with that error, the queue
  staying as it was.
\<close>

theorem dispatch_errors:
  "(\<not> is_object h \<longrightarrow> dispatch Request oo h c = Threw (InvalidArgumentError ''handler'') c)
   \<and> (is_object h \<and> \<not> has_onError h \<and> rejected Request oo h c = Some e \<longrightarrow>
        dispatch Request oo h c =
          Threw (InvalidArgumentError ''invalid onError method'') (c\<lparr>fresh := Suc (fresh c)\<rparr>))
   \<and> (is_object h \<and> has_onError h \<longrightarrow> (\<exists>b c'. dispatch Request oo h c = Returned b c'))
   \<and> (is_object h \<and> has_onError h \<and> rejected Request oo h c = Some e \<longrightarrow>
        dispatch Request oo h c =
          Returned (kNeedDrain c < 2)
            (c\<lparr>fresh := Suc (fresh c), trace := trace c @ [(fresh c, OnError e)]\<rparr>))"
proof (intro conjI impI)
  assume "\<not> is_object h"
  then show "dispatch Request oo h c = Threw (InvalidArgumentError ''handler'') c"
    by (simp add: dispatch_def)
next
  assume "is_object h \<and> \<not> has_onError h \<and> rejected Request oo h c = Some e"
  then show "dispatch Request oo h c =
      Threw (InvalidArgumentError ''invalid onError method'') (c\<lparr>fresh := Suc (fresh c)\<rparr>)"
    by (simp add: dispatch_def dispatch_try_rejected)
next
  assume "is_object h \<and> has_onError h"
  then show "\<exists>b c'. dispatch Request oo h c = Returned b c'"
    by (cases "dispatch_try Request oo h c") (simp_all add: dispatch_def)
next
  assume "is_object h \<and> has_onError h \<and> rejected Request oo h c = Some e"
  then show "dispatch Request oo h c =
      Returned (kNeedDrain c < 2)
        (c\<lparr>fresh := Suc (fresh c), trace := trace c @ [(fresh c, OnError e)]\<rparr>)"
    by (simp add: dispatch_def dispatch_try_rejected)
qed

theorem dispatch_errors_witness:
  "rejected request_js (Some bad_opts) plain_handler (Client_new default_config 1)
     = Some (InvalidArgumentError ''upgrade must be a string'')
   \<and> dispatch request_js (Some bad_opts) no_handler (Client_new default_config 1)
     = Threw (InvalidArgumentError ''handler'') (Client_new default_config 1)
   \<and> dispatch request_js (Some bad_opts) mute_handler (Client_new default_config 1)
     = Threw (InvalidArgumentError ''invalid onError method'')
         ((Client_new default_config 1)\<lparr>fresh := 1\<rparr>)
   \<and> dispatch request_js (Some bad_opts) plain_handler (Client_new default_config 1)
     = Returned True
         ((Client_new default_config 1)
            \<lparr>fresh := 1, trace := [(0, OnError (InvalidArgumentError ''upgrade must be a string''))]\<rparr>)"
proof -
  have r: "rejected request_js (Some bad_opts) h (Client_new default_config 1)
     = Some (InvalidArgumentError ''upgrade must be a string'')" for h
    by (simp add: rejected_def request_js_def bad_opts_def get_opts_def Request_new_def)
  have a: "\<not> is_object no_handler" by (simp add: no_handler_def)
  have b: "is_object mute_handler \<and> \<not> has_onError mute_handler"
    by (simp add: mute_handler_def)
  have c: "is_object plain_handler \<and> has_onError plain_handler"
    by (simp add: plain_handler_def)
  have n: "fresh (Client_new default_config 1) = 0" "trace (Client_new default_config 1) = []"
      "kNeedDrain (Client_new default_config 1) = 0"
    by (simp_all add: Client_new_def)
  from dispatch_errors [of no_handler request_js "Some bad_opts" "Client_new default_config 1"] a
  have 1: "dispatch request_js (Some bad_opts) no_handler (Client_new default_config 1)
     = Threw (InvalidArgumentError ''handler'') (Client_new default_config 1)" by simp
  from dispatch_errors [of mute_handler request_js "Some bad_opts" "Client_new default_config 1"
      "InvalidArgumentError ''upgrade must be a string''"] b r [of mute_handler] n
  have 2: "dispatch request_js (Some bad_opts) mute_handler (Client_new default_config 1)
     = Threw (InvalidArgumentError ''invalid onError method'')
         ((Client_new default_config 1)\<lparr>fresh := 1\<rparr>)" by simp
  from dispatch_errors [of plain_handler request_js "Some bad_opts" "Client_new default_config 1"
      "InvalidArgumentError ''upgrade must be a string''"] c r [of plain_handler] n
  have 3: "dispatch request_js (Some bad_opts) plain_handler (Client_new default_config 1)
     = Returned True
         ((Client_new default_config 1)
            \<lparr>fresh := 1, trace := [(0, OnError (InvalidArgumentError ''upgrade must be a string''))]\<rparr>)"
    by simp
  from r [of plain_handler] 1 2 3 show ?thesis by simp
qed

section \<open>A client between connections\<close>

text \<open>Every pass of the scheduler keeps what its loop body keeps.\<close>

lemma resume_loop_steps:
  assumes "P c" and "\<And>sync c. P c \<Longrightarrow> P (step_state (resume_step sync c))"
  shows "P (state_of (resume_loop sync c))"
  using assms(1)
proof (induction sync c rule: resume_loop.induct)
  case (1 sync c)
  from assms(2) [OF "1.prems"] have p: "P (step_state (resume_step sync c))" .
  show ?case
  proof (cases "resume_step sync c")
    case (Continue c')
    with p "1.IH" [of c'] show ?thesis by (simp add: resume_loop.simps [of sync c])
  next
    case (Return c')
    with p show ?thesis by (simp add: resume_loop.simps [of sync c])
  next
    case (Throw e c')
    with p show ?thesis by (simp add: resume_loop.simps [of sync c])
  qed
qed

lemma waiting_simps [simp]:
  "waiting ps tr (c\<lparr>kNeedDrain := v\<rparr>) = waiting ps tr c"
  "waiting ps tr (c\<lparr>kResuming := n\<rparr>) = waiting ps tr c"
  "waiting ps tr (c\<lparr>ticks := t\<rparr>) = waiting ps tr c"
  "waiting ps tr (c\<lparr>emitted := e\<rparr>) = waiting ps tr c"
  "waiting ps tr (c\<lparr>kServerName := x\<rparr>) = waiting ps tr c"
  "waiting ps tr (c\<lparr>kClosed := b\<rparr>) = waiting ps tr c"
  "waiting ps tr (c\<lparr>kDestroyed := b\<rparr>) = waiting ps tr c"
  "waiting ps tr (c\<lparr>kOnDestroyed := d\<rparr>) = waiting ps tr c"
  by (simp_all add: waiting_def idx_inv_def kRunning_def pending_slots_def)

lemma waiting_socket:
  "waiting ps tr c \<Longrightarrow> kConnecting s \<Longrightarrow> waiting ps tr (c\<lparr>kSocket := Some s\<rparr>)"
  by (auto simp: waiting_def idx_inv_def kRunning_def pending_slots_def)

lemma resume_socket_waiting:
  assumes "waiting ps tr c" "so = kSocket c"
  shows "waiting ps tr (step_state (resume_socket so ro c))"
proof (cases "kSocket c")
  case None
  with assms waiting_socket [of ps tr c "new_socket c"] show ?thesis
    by (simp add: resume_socket_def connect_def new_socket_def)
next
  case (Some s)
  with assms(1) have "kConnecting s" by (simp add: waiting_def)
  with Some assms show ?thesis by (simp add: resume_socket_def)
qed

lemma resume_servername_waiting:
  assumes "waiting ps tr c" "so = kSocket c"
  shows "waiting ps tr (step_state (resume_servername so ro c))"
proof -
  have a: "waiting ps tr (step_state (resume_socket so ro (c\<lparr>kServerName := x\<rparr>)))" for x
    using resume_socket_waiting [of ps tr "c\<lparr>kServerName := x\<rparr>" so ro] assms by simp
  have b: "waiting ps tr (c\<lparr>kServerName := x,
             kSocket := map_option (util_destroy e) (kSocket (c\<lparr>kServerName := x\<rparr>))\<rparr>)" for x e
    using assms(1)
    by (cases "kSocket c")
       (auto simp: waiting_def idx_inv_def kRunning_def pending_slots_def util_destroy_def)
  from assms a b resume_socket_waiting [OF assms, of ro] show ?thesis
    by (auto simp: resume_servername_def Let_def split: option.splits)
qed

lemma resume_pick_waiting:
  assumes "waiting ps tr c" "so = kSocket c"
  shows "waiting ps tr (step_state (resume_pick so c))"
  using assms resume_servername_waiting [OF assms]
  by (simp add: resume_pick_def)

lemma resume_drain_waiting:
  assumes "waiting ps tr c" "so = kSocket c"
  shows "waiting ps tr (step_state (resume_drain sync so c))"
  using assms resume_pick_waiting [OF assms] 
    resume_pick_waiting [of ps tr "c\<lparr>kNeedDrain := 2\<rparr>" so]
  by (simp add: resume_drain_def emitDrain_def)

lemma resume_timers_connecting:
  assumes "kConnecting s"
  shows "\<exists>s'. resume_timers c s = Done s' \<and> kConnecting s'"
  using assms by (simp add: resume_timers_def Let_def parser_setTimeout_def)

lemma destroy_core_waiting:
  assumes "waiting ps tr c" "kSize c = 0"
  shows "waiting ps tr (state_of (destroy_core err c))"
proof -
  from assms have "kPendingIdx c = int (length (kQueue c))"
    by (auto simp: waiting_def idx_inv_def kRunning_def kSize_def)
  then have sp: "splice_from (kQueue c) (kPendingIdx c) = (kQueue c, [])"
    by (simp add: splice_from_def js_start_def)
  have k: "kConnecting (util_destroy e (s\<lparr>on_close_destroyed := True\<rparr>))"
    if "kSocket c = Some s" for s e
  proof -
    from that assms(1) have "kConnecting s" by (simp add: waiting_def)
    then show ?thesis by (simp add: util_destroy_def)
  qed
  show ?thesis
    using assms(1) k
    by (cases "kSocket c")
       (auto simp: destroy_core_def Let_def sp intro!: waiting_socket split: option.splits)
qed

lemma resume_step_waiting:
  assumes "waiting ps tr c"
  shows "waiting ps tr (step_state (resume_step sync c))"
proof -
  consider (dead) "kDestroyed c" | (closing) "\<not> kDestroyed c" "kClosed c \<and> kSize c = 0"
    | (run) "\<not> kDestroyed c" "\<not> (kClosed c \<and> kSize c = 0)" by blast
  then show ?thesis
  proof cases
    case dead
    with assms show ?thesis by (simp add: resume_step_def)
  next
    case closing
    with destroy_core_waiting [OF assms, of None] show ?thesis
      by (cases "destroy_core None c") (simp_all add: resume_step_def)
  next
    case run
    show ?thesis
    proof (cases "kSocket c")
      case None
      with run resume_drain_waiting [OF assms, of None sync] show ?thesis
        by (auto simp: resume_step_def)
    next
      case (Some s)
      with assms have "kConnecting s" by (simp add: waiting_def)
      from resume_timers_connecting [OF this, of c] obtain s' where
        s': "resume_timers c s = Done s'" "kConnecting s'" by blast
      from waiting_socket [OF assms s'(2)]
      have "waiting ps tr (c\<lparr>kSocket := Some s'\<rparr>)" .
      from resume_drain_waiting [OF this, of "Some s'" sync] run Some s'(1)
      show ?thesis by (auto simp: resume_step_def)
    qed
  qed
qed

lemma compact_waiting: "waiting ps tr c \<Longrightarrow> waiting ps tr (compact c)"
  by (auto simp: compact_def waiting_def idx_inv_def kRunning_def pending_slots_def splice_head_def)

lemma resume_waiting:
  assumes "waiting ps tr c"
  shows "waiting ps tr (state_of (resume sync c))"
proof -
  from assms have "waiting ps tr (c\<lparr>kResuming := 2\<rparr>)" by simp
  then have b: "waiting ps tr (state_of (resume_loop sync (c\<lparr>kResuming := 2\<rparr>)))"
    by (rule resume_loop_steps [where P = "waiting ps tr"]) (rule resume_step_waiting)
  show ?thesis
  proof (cases "resume_loop sync (c\<lparr>kResuming := 2\<rparr>)")
    case (Done c1)
    with b have "waiting ps tr (compact (c1\<lparr>kResuming := 0\<rparr>))"
      by (simp add: compact_waiting)
    with assms Done show ?thesis by (simp add: resume_def)
  next
    case (Thrown e c1)
    with assms b show ?thesis by (simp add: resume_def)
  qed
qed




text \<open>The close event leaves nothing running.\<close>

lemma close_fail_socket:
  assumes "close_fail err c = Done c1" "kSocket c = None"
  shows "kSocket c1 = None"
proof -
  have a: "kSocket (state_of (fail_all err rs c0)) = None" if "kSocket c0 = None" for rs c0
    using fail_all_same [of c0 err rs] that by (simp add: same_queue_def)
  from assms a [of "c\<lparr>kQueue := fst (splice_from (kQueue c) (kRunningIdx c))\<rparr>"
      "snd (splice_from (kQueue c) (kRunningIdx c))"]
  show ?thesis
    by (auto simp: close_fail_def fail_head_def Let_def split: if_splits option.splits)
qed

lemma onSocketClose_parked:
  assumes "idx_inv c" "kSocket c = Some s" "onSocketClose c = Done c'"
  shows "idx_inv c' \<and> kRunning c' = 0"
proof -
  from assms(2,3) obtain c1 err ev where c1: "close_fail err (c\<lparr>kSocket := None\<rparr>) = Done c1"
    and r: "resume False (c1\<lparr>kPendingIdx := kRunningIdx c1, emitted := ev\<rparr>) = Done c'"
    by (auto simp: onSocketClose_def Let_def split: outcome.splits)
  define c3 where "c3 = c1\<lparr>kPendingIdx := kRunningIdx c1, emitted := ev\<rparr>"
  from assms(1) have "idx_inv (c\<lparr>kSocket := None\<rparr>)" by (simp add: idx_inv_def)
  from close_fail_idx [OF this c1] close_fail_socket [OF c1]
  have "waiting (pending_slots c3) (trace c3) c3"
    by (simp add: waiting_def idx_inv_def kRunning_def c3_def)
  from resume_waiting [OF this, of False] r show ?thesis
    by (simp add: c3_def waiting_def)
qed

lemma onSocketClose_run_bound:
  assumes "run_bound b c" "onSocketClose c = Done c'"
  shows "run_bound b c'"
proof (cases "kSocket c")
  case None
  with assms show ?thesis by (simp add: onSocketClose_def)
next
  case (Some s)
  from assms(1) have "idx_inv c" by (rule run_bound_idx)
  from onSocketClose_parked [OF this Some assms(2)] show ?thesis
    by (auto simp: run_bound_def pipelining_or_1_def max_def)
qed


section \<open>Integrity of the queue\<close>

text \<open>
  C2, as the code has it. A new client has its indices in order,
  \<open>0 \<le> kRunningIdx \<le> kPendingIdx \<le> length\<close>, with nothing running, and the order is kept
  by every public operation (dispatch, close, destroy, the setter of the pipelining
  factor), by every run of the scheduler, by a waiting tick, by the connect, error and
  close events of the socket and by the retiring of the answered head. For every number
  \<open>b\<close>: if no more requests are running than the larger of \<open>b\<close> and
  \<^verbatim>\<open>kPipelining || 1\<close> (the pipelining factor, or 1 when the factor is 0), the same holds
  after each of these, except that the setter has the old factor among the numbers
  compared, and except for the error event for a certificate that does not match. With
  \<open>b = 0\<close> this is the integrity of the queue, \<open>queue_inv\<close>; with \<open>b\<close> the number
  running it says that nothing is started beyond \<^verbatim>\<open>kPipelining || 1\<close>. After the close
  event of the client's socket nothing is running.
\<close>

theorem queue_integrity:
  "idx_inv (Client_new cf p) \<and> kRunning (Client_new cf p) = 0
   \<and> (idx_inv c \<longrightarrow>
        idx_inv (dispatched_client (dispatch Request oo h c))
        \<and> idx_inv (state_of (close c))
        \<and> idx_inv (state_of (destroy err c))
        \<and> idx_inv (state_of (set_pipelining v c))
        \<and> idx_inv (state_of (resume sync c))
        \<and> idx_inv (state_of (run_task t c))
        \<and> idx_inv (state_of (onSocketConnect c))
        \<and> idx_inv (state_of (onSocketError e c))
        \<and> (kRunning c > 0 \<longrightarrow> idx_inv (retire_head c)))
   \<and> (idx_inv c \<and> onSocketClose c = Done c' \<longrightarrow>
        idx_inv c' \<and> (kSocket c \<noteq> None \<longrightarrow> kRunning c' = 0))
   \<and> (run_bound b c \<longrightarrow>
        run_bound b (dispatched_client (dispatch Request oo h c))
        \<and> run_bound b (state_of (close c))
        \<and> run_bound b (state_of (destroy err c))
        \<and> run_bound (max b (pipelining_or_1 c)) (state_of (set_pipelining v c))
        \<and> run_bound b (state_of (resume sync c))
        \<and> run_bound b (state_of (run_task t c))
        \<and> run_bound b (state_of (onSocketConnect c))
        \<and> (err_code e \<noteq> ''ERR_TLS_CERT_ALTNAME_INVALID''
             \<longrightarrow> run_bound b (state_of (onSocketError e c)))
        \<and> (kRunning c > 0 \<longrightarrow> run_bound b (retire_head c)))
   \<and> (run_bound b c \<and> onSocketClose c = Done c' \<longrightarrow> run_bound b c')
   \<and> (queue_inv c \<longleftrightarrow> run_bound 0 c)
   \<and> (idx_inv c \<longleftrightarrow> run_bound (kRunning c) c)"
proof -
  have new: "idx_inv (Client_new cf p) \<and> kRunning (Client_new cf p) = 0"
    by (simp add: idx_inv_def Client_new_def kRunning_def)
  have own: "idx_inv c \<longleftrightarrow> run_bound (kRunning c) c"
    by (simp add: run_bound_def)
  have bnd: "run_bound b c \<longrightarrow>
        run_bound b (dispatched_client (dispatch Request oo h c))
        \<and> run_bound b (state_of (close c))
        \<and> run_bound b (state_of (destroy err c))
        \<and> run_bound (max b (pipelining_or_1 c)) (state_of (set_pipelining v c))
        \<and> run_bound b (state_of (resume sync c))
        \<and> run_bound b (state_of (run_task t c))
        \<and> run_bound b (state_of (onSocketConnect c))
        \<and> (err_code e \<noteq> ''ERR_TLS_CERT_ALTNAME_INVALID''
             \<longrightarrow> run_bound b (state_of (onSocketError e c)))
        \<and> (kRunning c > 0 \<longrightarrow> run_bound b (retire_head c))" for b
  proof (intro conjI impI)
    assume "run_bound b c"
    then show "run_bound b (dispatched_client (dispatch Request oo h c))"
      by (rule dispatch_run_bound)
  next
    assume "run_bound b c"
    then show "run_bound b (state_of (close c))" by (rule close_run_bound)
  next
    assume "run_bound b c"
    then show "run_bound b (state_of (destroy err c))" by (rule destroy_run_bound)
  next
    assume "run_bound b c"
    then show "run_bound (max b (pipelining_or_1 c)) (state_of (set_pipelining v c))"
      by (rule set_pipelining_run_bound)
  next
    assume "run_bound b c"
    then show "run_bound b (state_of (resume sync c))" by (rule resume_run_bound)
  next
    assume "run_bound b c"
    then show "run_bound b (state_of (run_task t c))" by (rule run_task_run_bound)
  next
    assume "run_bound b c"
    then show "run_bound b (state_of (onSocketConnect c))" by (rule onSocketConnect_run_bound)
  next
    assume "run_bound b c" and "err_code e \<noteq> ''ERR_TLS_CERT_ALTNAME_INVALID''"
    then show "run_bound b (state_of (onSocketError e c))" by (rule onSocketError_run_bound)
  next
    assume "run_bound b c" and "kRunning c > 0"
    then show "run_bound b (retire_head c)" by (rule retire_head_run_bound)
  qed
  have idx: "idx_inv c \<longrightarrow>
        idx_inv (dispatched_client (dispatch Request oo h c))
        \<and> idx_inv (state_of (close c))
        \<and> idx_inv (state_of (destroy err c))
        \<and> idx_inv (state_of (set_pipelining v c))
        \<and> idx_inv (state_of (resume sync c))
        \<and> idx_inv (state_of (run_task t c))
        \<and> idx_inv (state_of (onSocketConnect c))
        \<and> idx_inv (state_of (onSocketError e c))
        \<and> (kRunning c > 0 \<longrightarrow> idx_inv (retire_head c))"
  proof
    assume i: "idx_inv c"
    then have r: "run_bound (kRunning c) c" by (rule run_bound_own)
    from r have "idx_inv (dispatched_client (dispatch Request oo h c))"
      by (intro run_bound_idx dispatch_run_bound)
    moreover from r have "idx_inv (state_of (close c))"
      by (intro run_bound_idx close_run_bound)
    moreover from r have "idx_inv (state_of (destroy err c))"
      by (intro run_bound_idx destroy_run_bound)
    moreover from set_pipelining_run_bound [OF r, of v]
    have "idx_inv (state_of (set_pipelining v c))" by (rule run_bound_idx)
    moreover from r have "idx_inv (state_of (resume sync c))"
      by (intro run_bound_idx resume_run_bound)
    moreover from r have "idx_inv (state_of (run_task t c))"
      by (intro run_bound_idx run_task_run_bound)
    moreover from r have "idx_inv (state_of (onSocketConnect c))"
      by (intro run_bound_idx onSocketConnect_run_bound)
    moreover from i have "idx_inv (state_of (onSocketError e c))" by (rule onSocketError_idx)
    moreover have "kRunning c > 0 \<longrightarrow> idx_inv (retire_head c)"
      using retire_head_run_bound [OF r] run_bound_idx by blast
    ultimately show "idx_inv (dispatched_client (dispatch Request oo h c))
        \<and> idx_inv (state_of (close c))
        \<and> idx_inv (state_of (destroy err c))
        \<and> idx_inv (state_of (set_pipelining v c))
        \<and> idx_inv (state_of (resume sync c))
        \<and> idx_inv (state_of (run_task t c))
        \<and> idx_inv (state_of (onSocketConnect c))
        \<and> idx_inv (state_of (onSocketError e c))
        \<and> (kRunning c > 0 \<longrightarrow> idx_inv (retire_head c))"
      by (intro conjI)
  qed
  have cl: "idx_inv c \<and> onSocketClose c = Done c' \<longrightarrow>
        idx_inv c' \<and> (kSocket c \<noteq> None \<longrightarrow> kRunning c' = 0)"
  proof
    assume a: "idx_inv c \<and> onSocketClose c = Done c'"
    show "idx_inv c' \<and> (kSocket c \<noteq> None \<longrightarrow> kRunning c' = 0)"
    proof (cases "kSocket c")
      case None
      with a show ?thesis by (auto simp: onSocketClose_def)
    next
      case (Some s)
      with a onSocketClose_parked [of c s c'] show ?thesis by simp
    qed
  qed
  have clb: "run_bound b c \<and> onSocketClose c = Done c' \<longrightarrow> run_bound b c'"
    using onSocketClose_run_bound [of b c c'] by simp
  have q: "queue_inv c \<longleftrightarrow> run_bound 0 c" by (rule queue_inv_bound)
  from new have n1: "idx_inv (Client_new cf p)" and n2: "kRunning (Client_new cf p) = 0"
    by simp_all
  show ?thesis
    by (rule conjI [OF n1 conjI [OF n2 conjI [OF idx conjI [OF cl
          conjI [OF bnd conjI [OF clb conjI [OF q own]]]]]]])
qed

theorem queue_integrity_witness:
  "queue_inv (connected_gets 2 3)
   \<and> kRunningIdx (connected_gets 2 3) = 0 \<and> kPendingIdx (connected_gets 2 3) = 2
   \<and> length (kQueue (connected_gets 2 3)) = 3
   \<and> queue_inv (dispatched_client
        (dispatch request_js (Some get_opts) plain_handler (connected_gets 2 3)))
   \<and> queue_inv (state_of (close (connected_gets 2 3)))
   \<and> queue_inv (state_of (destroy None (connected_gets 2 3)))
   \<and> queue_inv (state_of (resume False (connected_gets 2 3)))
   \<and> queue_inv (retire_head (connected_gets 2 3))
   \<and> queue_inv (state_of (onSocketError (SocketError ''other side closed'') (connected_gets 2 3)))
   \<and> queue_inv (state_of (onSocketClose (connected_gets 2 3)))
   \<and> kRunning (state_of (onSocketClose (connected_gets 2 3))) = 0
   \<and> run_bound 2 (state_of (set_pipelining 1 (connected_gets 2 3)))
   \<and> idx_inv (state_of (onSocketError (SystemError ''ERR_TLS_CERT_ALTNAME_INVALID'') tls_posts))"
proof -
  define c where "c = connected_gets 2 3"
  define c' where "c' = state_of (onSocketClose c)"
  have i: "kRunningIdx c = 0" "kPendingIdx c = 2" "length (kQueue c) = 3" "kPipelining c = 2"
    unfolding c_def by code_simp+
  then have q: "queue_inv c"
    by (simp add: queue_inv_def kRunning_def pipelining_or_1_def)
  have k: "kRunning c > 0" "kSocket c \<noteq> None" "pipelining_or_1 c = 2"
    "err_code (SocketError ''other side closed'') \<noteq> ''ERR_TLS_CERT_ALTNAME_INVALID''"
    using i unfolding c_def by (simp add: kRunning_def, code_simp, simp add: pipelining_or_1_def, simp)
  have d: "onSocketClose c = Done c'" unfolding c'_def c_def by code_simp
  have t: "idx_inv tls_posts" by code_simp
  note th = queue_integrity [of default_config 2 c request_js "Some get_opts" plain_handler None 1
      False TaskResume "SocketError ''other side closed''" c' 0]
  from th q have b0: "run_bound 0 c" by blast
  with th k(1,4) d have
    "run_bound 0 (dispatched_client (dispatch request_js (Some get_opts) plain_handler c))"
    "run_bound 0 (state_of (close c))"
    "run_bound 0 (state_of (destroy None c))"
    "run_bound 0 (state_of (resume False c))"
    "run_bound 0 (retire_head c)"
    "run_bound 0 (state_of (onSocketError (SocketError ''other side closed'') c))"
    "run_bound 0 c'"
    "run_bound (max 0 (pipelining_or_1 c)) (state_of (set_pipelining 1 c))"
    by blast+
  moreover from th b0 have "idx_inv c" by (simp add: run_bound_def)
  with th d k(2) have "kRunning c' = 0" by blast
  moreover from queue_integrity [of default_config 2 tls_posts request_js "Some get_opts"
      plain_handler None 1 False TaskResume "SystemError ''ERR_TLS_CERT_ALTNAME_INVALID''" c' 0] t
  have "idx_inv (state_of (onSocketError (SystemError ''ERR_TLS_CERT_ALTNAME_INVALID'') tls_posts))"
    by blast
  ultimately show ?thesis
    using q i(1-3) k(3) by (simp add: queue_inv_bound c_def c'_def)
qed

text \<open>
  The claim as written bounds the running requests by the pipelining factor itself. A
  client with pipelining 0 (no keep-alive) that has dispatched one request has it running
  once the socket has connected and the scheduler has run. Nor is the bound by
  \<^verbatim>\<open>kPipelining || 1\<close> kept in every state: with three requests running the factor is
  set from 3 to 1, and three are running still; and after the error event for a
  certificate that does not match, the two requests it has failed count as running with a
  factor of 1.
\<close>

theorem running_exceeds_pipelining_counterexample:
  "kPipelining (connected_gets 0 1) = 0
   \<and> kRunning (connected_gets 0 1) = 1
   \<and> \<not> kRunning (connected_gets 0 1) \<le> int (kPipelining (connected_gets 0 1))
   \<and> kRunning (connected_gets 3 3) = 3 \<and> pipelining_or_1 (connected_gets 3 3) = 3
   \<and> set_pipelining 1 (connected_gets 3 3) = Done lowered_factor
   \<and> kRunning lowered_factor = 3 \<and> pipelining_or_1 lowered_factor = 1
   \<and> kRunning (dispatched_client (dispatch request_js (Some get_opts) plain_handler lowered_factor)) = 3
   \<and> kRunning tls_posts = 0 \<and> pipelining_or_1 tls_posts = 1
   \<and> kRunning altname_failed = 2 \<and> pipelining_or_1 altname_failed = 1"
  by code_simp

section \<open>Properties of the request object\<close>

lemma handler_events_append [simp]:
  "handler_events (a @ b) = handler_events a @ handler_events b"
  by (induction a rule: handler_events.induct) auto

lemma after_first_error_snoc:
  "no_error evs \<Longrightarrow> after_first_error (evs @ [OnError e]) = []"
  by (simp add: after_first_error_def no_error_def)

lemma destroy_request_events [simp]:
  "handler_events (fst (destroy_request r)) = []"
  "aborted (snd (destroy_request r)) = aborted r"
  "kResume (snd (destroy_request r)) = kResume r"
  by (auto simp: destroy_request_def)

lemma onError_aborted:
  "aborted r \<Longrightarrow> Request_onError e r = ([], r)"
  by (simp add: Request_onError_def)

lemma onError_fresh:
  "\<not> aborted r \<Longrightarrow>
     handler_events (fst (Request_onError e r)) = [OnError e] \<and> aborted (snd (Request_onError e r))"
  by (auto simp: Request_onError_def destroy_request_def Let_def split: prod.splits)

lemma call_aborted:
  "aborted r \<Longrightarrow> state_of (Request_call c r) = ([], r)"
  by (cases c)
     (auto simp: Request_onError_def Request_onConnect_def Request_onHeaders_def
        Request_onBody_def Request_onUpgrade_def Request_onComplete_def)

lemma onError_shape:
  "\<not> aborted r \<Longrightarrow> Request_onError e r = (fx, r') \<Longrightarrow>
     aborted r' \<and> handler_events fx = [OnError e]"
  using onError_fresh [of r e] by simp

lemma onConnect_shape:
  assumes "\<not> aborted r" and "state_of (Request_onConnect r) = (fx, r')"
  shows "(\<not> aborted r' \<and> handler_events fx = [OnConnect]) \<or>
         (aborted r' \<and> (\<exists>e. handler_events fx = [OnConnect, OnError e]))"
proof (cases "on_connect (handler r)")
  case Proceed
  with assms show ?thesis
    by (auto simp: Request_onConnect_def Let_def split: option.splits if_splits)
next
  case (AbortNow eo)
  with assms show ?thesis
    by (auto simp: Request_onConnect_def Let_def Request_onError_def destroy_request_def
        split: option.splits if_splits prod.splits)
next
  case (Raise e)
  with assms show ?thesis
    by (auto simp: Request_onConnect_def Let_def split: option.splits if_splits)
qed

lemma call_fresh:
  assumes "\<not> aborted r" and "state_of (Request_call c r) = (fx, r')"
  shows "(\<not> aborted r' \<and> no_error (handler_events fx)) \<or>
         (aborted r' \<and> (\<exists>pre e. handler_events fx = pre @ [OnError e] \<and> no_error pre))"
proof (cases c)
  case CallOnConnect
  with assms onConnect_shape [of r fx r'] show ?thesis
    by (auto simp: no_error_def intro: exI [of _ "[OnConnect]"])
next
  case (CallOnError e)
  with assms onError_shape [of r e fx r'] show ?thesis
    by (auto simp: no_error_def)
next
  case TimerFires
  with assms onError_shape [of r RequestTimeoutError fx r'] show ?thesis
    by (auto simp: no_error_def split: if_splits)
next
  case (CallAbort eo)
  with assms onError_shape [of r _ fx r'] show ?thesis
    by (auto simp: no_error_def)
qed (use assms in \<open>auto simp: no_error_def Request_onHeaders_def Request_onBody_def
       Request_onUpgrade_def Request_onComplete_def destroy_request_def split: if_splits\<close>)

lemma call_inv:
  assumes "req_inv (fx, r)" and "state_of (Request_call c r) = (fx', r')"
  shows "req_inv (fx @ fx', r')"
proof (cases "aborted r")
  case True
  with assms call_aborted [of r c] show ?thesis by simp
next
  case False
  with assms have ne: "no_error (handler_events fx)" by (simp add: req_inv_def)
  from call_fresh [OF False assms(2)] show ?thesis
  proof
    assume "\<not> aborted r' \<and> no_error (handler_events fx')"
    with ne show ?thesis by (auto simp: req_inv_def no_error_def)
  next
    assume "aborted r' \<and> (\<exists>pre e. handler_events fx' = pre @ [OnError e] \<and> no_error pre)"
    then obtain pre e where ab: "aborted r'" and eq: "handler_events fx' = pre @ [OnError e]"
      and np: "no_error pre" by blast
    from ne np have "no_error (handler_events fx @ pre)" by (auto simp: no_error_def)
    from after_first_error_snoc [OF this, of e] ab eq show ?thesis
      by (auto simp: req_inv_def no_error_def)
  qed
qed

lemma run_calls_inv:
  "req_inv s \<Longrightarrow> req_inv (run_calls cs s)"
proof (induction cs arbitrary: s)
  case Nil
  then show ?case by simp
next
  case (Cons c cs)
  obtain fx r where s: "s = (fx, r)" by (cases s)
  obtain fx' r' where st: "state_of (Request_call c r) = (fx', r')"
    by (cases "state_of (Request_call c r)")
  from Cons.prems s call_inv [OF _ st] have "req_inv (fx @ fx', r')" by simp
  from Cons.IH [OF this] s st show ?case by simp
qed

lemma Request_new_fresh:
  "Request_new isIP i opt dflt h = Inr r \<Longrightarrow> \<not> aborted r"
  by (auto simp: Request_new_def Let_def split: jsval.splits list.splits if_splits sum.splits prod.splits)

lemma filter_after:
  "after_first_error evs = [] \<Longrightarrow> length (filter is_OnError evs) \<le> 1"
proof (induction evs)
  case Nil
  then show ?case by simp
next
  case (Cons x xs)
  show ?case
  proof (cases "is_OnError x")
    case True
    with Cons.prems have "xs = []" by (simp add: after_first_error_def)
    then show ?thesis by simp
  next
    case False
    with Cons show ?thesis by (simp add: after_first_error_def)
  qed
qed

lemma no_error_after: "no_error evs \<Longrightarrow> after_first_error evs = []"
proof -
  assume "no_error evs"
  then have "dropWhile (\<lambda>e. \<not> is_OnError e) evs = []"
    by (simp add: no_error_def)
  then show ?thesis
    unfolding after_first_error_def by (simp only: drop_Nil)
qed

text \<open>
  C3. A request built by the constructor, whatever calls reach it afterwards (from the
  client, from its timer, from the handler's abort callback): its handler sees at most
  one \<^verbatim>\<open>onError\<close>, no handler call is delivered after that one, and the \<open>aborted\<close> flag
  is set exactly when an \<^verbatim>\<open>onError\<close> has been delivered.
\<close>

theorem request_single_error:
  assumes "Request_new isIP i opt dflt h = Inr r"
    and "run_calls cs ([], r) = (fx, r')"
  shows "after_first_error (handler_events fx) = []
         \<and> length (filter is_OnError (handler_events fx)) \<le> 1
         \<and> (aborted r' \<longleftrightarrow> (\<exists>e\<in>set (handler_events fx). is_OnError e))"
proof -
  from Request_new_fresh [OF assms(1)] have "req_inv ([], r)"
    by (simp add: req_inv_def no_error_def)
  from run_calls_inv [OF this, of cs] assms(2) have inv: "req_inv (fx, r')" by simp
  then have a: "after_first_error (handler_events fx) = []"
    by (auto simp: req_inv_def no_error_after split: if_splits)
  from inv have b: "aborted r' \<longleftrightarrow> (\<exists>e\<in>set (handler_events fx). is_OnError e)"
    by (auto simp: req_inv_def no_error_def split: if_splits)
  from a b filter_after [OF a] show ?thesis by blast
qed

theorem request_single_error_witness:
  "Request_new no_ip 7 get_opts (Some 30000) plain_handler
     = Inr ((get_request 7)\<lparr>kRequestTimeout := Some 30000\<rparr>)
   \<and> handler_events (fst (run_calls c3_calls
        ([], (get_request 7)\<lparr>kRequestTimeout := Some 30000\<rparr>)))
     = [OnConnect, OnHeaders 200, OnData, OnError (SocketError ''closed'')]
   \<and> after_first_error (handler_events (fst (run_calls c3_calls
        ([], (get_request 7)\<lparr>kRequestTimeout := Some 30000\<rparr>)))) = []
   \<and> aborted (snd (run_calls c3_calls
        ([], (get_request 7)\<lparr>kRequestTimeout := Some 30000\<rparr>)))"
proof -
  have new: "Request_new no_ip 7 get_opts (Some 30000) plain_handler
     = Inr ((get_request 7)\<lparr>kRequestTimeout := Some 30000\<rparr>)"
    by (simp add: Request_new_def get_opts_def get_request_def body_of_def host_of_def
        servername_of_def)
  have evs: "handler_events (fst (run_calls c3_calls
        ([], (get_request 7)\<lparr>kRequestTimeout := Some 30000\<rparr>)))
     = [OnConnect, OnHeaders 200, OnData, OnError (SocketError ''closed'')]"
    by code_simp
  have ab: "aborted (snd (run_calls c3_calls
        ([], (get_request 7)\<lparr>kRequestTimeout := Some 30000\<rparr>)))"
    by code_simp
  from request_single_error [OF new, of c3_calls
      "fst (run_calls c3_calls ([], (get_request 7)\<lparr>kRequestTimeout := Some 30000\<rparr>))"
      "snd (run_calls c3_calls ([], (get_request 7)\<lparr>kRequestTimeout := Some 30000\<rparr>))"]
  show ?thesis using new evs ab by simp
qed

section \<open>The close event of the socket\<close>











section \<open>Properties of the parser callback\<close>

lemma util_destroy_kReset [simp]: "kReset (util_destroy e s) = kReset s"
  by (simp add: util_destroy_def)

lemma parser_setTimeout_kReset [simp]: "kReset (parser_setTimeout v ty s) = kReset s"
  by (simp add: parser_setTimeout_def Let_def)

lemma keepalive_update_advertised:
  assumes "kPipelining c \<noteq> 0" and "keepalive_seconds v = Some n"
  shows "keepalive_update True (Some v) c s =
     (if min (int n * 1000 - kKeepAliveTimeoutThreshold (conf c)) (kKeepAliveMaxTimeout (conf c)) \<le> 0
      then (c, s\<lparr>kReset := True\<rparr>)
      else (c\<lparr>kKeepAliveTimeoutValue :=
              min (int n * 1000 - kKeepAliveTimeoutThreshold (conf c))
                  (kKeepAliveMaxTimeout (conf c))\<rparr>, s))"
  using assms by (simp add: keepalive_update_def parseKeepAliveTimeout_def Let_def)

lemma headers_deliver_state:
  assumes "headers_deliver statusCode ka rawHeaders pause r c s = Done (ret, c')"
  shows "\<exists>s'. kSocket c' = Some s'
     \<and> kReset s' = kReset (snd (keepalive_update ka (fst (scan_headers rawHeaders (None, None))) c s))
     \<and> kKeepAliveTimeoutValue c' =
         kKeepAliveTimeoutValue (fst (keepalive_update ka (fst (scan_headers rawHeaders (None, None))) c s))"
  using assms
  by (auto simp: headers_deliver_def Let_def record_effects_def split: if_splits)

text \<open>
  C6, as the code has it. When the parser reports the end of the headers of a response
  that keeps the connection alive and the callback takes it as an ordinary response (no
  error, no upgrade), on a client whose pipelining factor is not 0, and the first
  Keep-Alive header advertises \<^verbatim>\<open>timeout=N\<close>: the idle timeout of the client becomes
  min(N * 1000 - threshold, cap) when that is positive, the reset flag of the socket being
  left alone; otherwise the reset flag is set and the idle timeout keeps its value.
\<close>

theorem keepalive_timeout:
  assumes "onHeadersComplete statusCode upg True rawHeaders pause c = Done (ret, c')"
    and "ret \<noteq> RetError" and "ret \<noteq> RetUpgrade"
    and "kPipelining c \<noteq> 0"
    and "fst (scan_headers rawHeaders (None, None)) = Some v"
    and "keepalive_seconds v = Some n"
  shows "\<exists>s s'. kSocket c = Some s \<and> kSocket c' = Some s' \<and>
     (if min (int n * 1000 - kKeepAliveTimeoutThreshold (conf c)) (kKeepAliveMaxTimeout (conf c)) \<le> 0
      then kReset s' \<and> kKeepAliveTimeoutValue c' = kKeepAliveTimeoutValue c
      else kKeepAliveTimeoutValue c' =
             min (int n * 1000 - kKeepAliveTimeoutThreshold (conf c)) (kKeepAliveMaxTimeout (conf c))
           \<and> kReset s' = kReset s)"
proof -
  from assms(1-3) obtain s r where s: "kSocket c = Some s"
    and hd0: "headers_deliver statusCode True rawHeaders pause r c
        (if statusCode \<ge> 200
         then parser_setTimeout (kBodyTimeout (conf c)) TIMEOUT_BODY
                (s\<lparr>p_statusCode := Some statusCode, p_shouldKeepAlive := True\<rparr>)
         else s\<lparr>p_statusCode := Some statusCode, p_shouldKeepAlive := True\<rparr>) = Done (ret, c')"
    by (auto simp: onHeadersComplete_def Let_def split: option.splits if_splits)
  define s2 where "s2 = (if statusCode \<ge> 200
         then parser_setTimeout (kBodyTimeout (conf c)) TIMEOUT_BODY
                (s\<lparr>p_statusCode := Some statusCode, p_shouldKeepAlive := True\<rparr>)
         else s\<lparr>p_statusCode := Some statusCode, p_shouldKeepAlive := True\<rparr>)"
  have k: "kReset s2 = kReset s" by (simp add: s2_def)
  from hd0 have hd: "headers_deliver statusCode True rawHeaders pause r c s2 = Done (ret, c')"
    by (simp add: s2_def)
  from headers_deliver_state [OF hd] assms(5) obtain s' where
    s': "kSocket c' = Some s'"
      "kReset s' = kReset (snd (keepalive_update True (Some v) c s2))"
      "kKeepAliveTimeoutValue c' = kKeepAliveTimeoutValue (fst (keepalive_update True (Some v) c s2))"
    by auto
  show ?thesis
    using s s' k keepalive_update_advertised [OF assms(4) assms(6), of s2]
    by (auto split: if_splits)
qed

theorem keepalive_timeout_witness:
  "onHeadersComplete 200 False True [(''Keep-Alive'', ''timeout=10'')] False (connected_gets 1 1)
     = Done (state_of (onHeadersComplete 200 False True [(''Keep-Alive'', ''timeout=10'')] False
                (connected_gets 1 1)))
   \<and> fst (state_of (onHeadersComplete 200 False True [(''Keep-Alive'', ''timeout=10'')] False
                (connected_gets 1 1))) = RetContinue
   \<and> kPipelining (connected_gets 1 1) = 1
   \<and> fst (scan_headers [(''Keep-Alive'', ''timeout=10'')] (None, None)) = Some ''timeout=10''
   \<and> keepalive_seconds ''timeout=10'' = Some 10
   \<and> conf (connected_gets 1 1) = default_config
   \<and> kKeepAliveTimeoutValue (snd (state_of (onHeadersComplete 200 False True
        [(''Keep-Alive'', ''timeout=10'')] False (connected_gets 1 1)))) = 9000"
proof -
  define X where "X = onHeadersComplete 200 False True [(''Keep-Alive'', ''timeout=10'')] False
                (connected_gets 1 1)"
  have d: "X = Done (state_of X)" unfolding X_def by code_simp
  have r: "fst (state_of X) = RetContinue" unfolding X_def by code_simp
  have p: "kPipelining (connected_gets 1 1) = 1" by code_simp
  have h: "fst (scan_headers [(''Keep-Alive'', ''timeout=10'')] (None, None)) = Some ''timeout=10''"
    by code_simp
  have k: "keepalive_seconds ''timeout=10'' = Some 10" by code_simp
  have cf: "conf (connected_gets 1 1) = default_config" by code_simp
  from d have d': "onHeadersComplete 200 False True [(''Keep-Alive'', ''timeout=10'')] False
      (connected_gets 1 1) = Done (fst (state_of X), snd (state_of X))"
    by (simp add: X_def)
  from keepalive_timeout [OF d' _ _ _ h k] r p cf
  have "kKeepAliveTimeoutValue (snd (state_of X)) = 9000"
    by (auto simp: default_config_def split: if_splits)
  with d r p h k cf show ?thesis by (simp add: X_def)
qed

text \<open>
  The claim as written does not ask for a pipelining factor other than 0. With
  pipelining 0 a response that keeps the connection alive and advertises \<^verbatim>\<open>timeout=10\<close>
  leaves the idle timeout at its default of 4000 (the claim gives min(10000 - 1000,
  600000) = 9000) and sets the reset flag.
\<close>

theorem keepalive_pipelining0_counterexample:
  "fst (state_of (onHeadersComplete 200 False True [(''Keep-Alive'', ''timeout=10'')] False
          (connected_gets 0 1))) = RetContinue
   \<and> kKeepAliveTimeoutValue (snd (state_of (onHeadersComplete 200 False True
        [(''Keep-Alive'', ''timeout=10'')] False (connected_gets 0 1)))) = 4000
   \<and> map_option kReset (kSocket (snd (state_of (onHeadersComplete 200 False True
        [(''Keep-Alive'', ''timeout=10'')] False (connected_gets 0 1))))) = Some True
   \<and> min (10 * 1000 - kKeepAliveTimeoutThreshold (conf (connected_gets 0 1)))
          (kKeepAliveMaxTimeout (conf (connected_gets 0 1))) = 9000"
  by code_simp

section \<open>The value dispatch returns\<close>

lemma step_result_drain:
  assumes "kNeedDrain c \<le> 2" "step_result c c'"
  shows "kNeedDrain c' \<le> 2"
  using assms
  by (auto simp: step_result_def pick_result_def quiet_def write_result_def destroy_result_def)

lemma resume_drain: "kNeedDrain c \<le> 2 \<Longrightarrow> kNeedDrain (state_of (resume sync c)) \<le> 2"
proof -
  assume a: "kNeedDrain c \<le> 2"
  then have "kNeedDrain (c\<lparr>kResuming := 2\<rparr>) \<le> 2" by simp
  then have b: "kNeedDrain (state_of (resume_loop sync (c\<lparr>kResuming := 2\<rparr>))) \<le> 2"
    by (rule resume_loop_invariant [where P = "\<lambda>c. kNeedDrain c \<le> 2"])
       (rule step_result_drain)
  show ?thesis
    using a b
    by (cases "resume_loop sync (c\<lparr>kResuming := 2\<rparr>)") (auto simp: resume_def compact_def)
qed

lemma enqueue_drain: "kNeedDrain c \<le> 2 \<Longrightarrow> kNeedDrain (state_of (enqueue r c)) \<le> 2"
proof -
  assume a: "kNeedDrain c \<le> 2"
  define c1 where "c1 = c\<lparr>kQueue := kQueue c @ [Some r]\<rparr>"
  from a resume_drain [of c1 True] have q: "kNeedDrain (state_of (resume True c1)) \<le> 2"
    by (simp add: c1_def)
  show ?thesis
    using a q
    unfolding enqueue_def Let_def c1_def [symmetric]
    by (cases "resume True c1") (auto simp: c1_def)
qed

lemma dispatch_try_drain:
  "kNeedDrain c \<le> 2 \<Longrightarrow> kNeedDrain (state_of (dispatch_try Request oo h c)) \<le> 2"
  using enqueue_drain [of c]
  by (auto simp: dispatch_try_def split: option.splits sum.splits)

lemma kBusy_simps [simp]:
  "kBusy (c\<lparr>kNeedDrain := v\<rparr>) = kBusy c"
  "kBusy (c\<lparr>kServerName := x\<rparr>) = kBusy c"
  "kBusy (c\<lparr>kResuming := n\<rparr>) = kBusy c"
  "kBusy (c\<lparr>ticks := t\<rparr>) = kBusy c"
  "kBusy (c\<lparr>emitted := e\<rparr>) = kBusy c"
  "kBusy (c\<lparr>fresh := f\<rparr>) = kBusy c"
  "kBusy (c\<lparr>trace := tr\<rparr>) = kBusy c"
  "kBusy (update_request i r c) = kBusy c"
  by (simp_all add: kBusy_def kSize_def kPending_def pipelining_or_1_def)

lemma resume_write_return:
  assumes "resume_write r c = Return c'"
  shows "kBusy c' = kBusy c \<and> kNeedDrain c' = kNeedDrain c"
  using assms
  by (auto simp: resume_write_def Let_def split: if_splits outcome.splits)

lemma resume_socket_return:
  assumes "resume_socket so ro c = Return c'"
  shows "kBusy c' = kBusy c \<and> kNeedDrain c' = kNeedDrain c"
  using assms resume_write_return [of _ c c']
  by (auto simp: resume_socket_def split: option.splits if_splits outcome.splits)

lemma kBusy_destroyed [simp]:
  "kBusy (c\<lparr>kSocket := map_option (util_destroy e) (kSocket c)\<rparr>) = kBusy c"
  by (cases "kSocket c") (simp_all add: kBusy_def kSize_def kPending_def pipelining_or_1_def
      util_destroy_def)

lemma resume_servername_return:
  assumes "resume_servername so ro c = Return c'"
  shows "kBusy c' = kBusy c \<and> kNeedDrain c' = kNeedDrain c"
proof -
  have a: "resume_socket so ro (c\<lparr>kServerName := x\<rparr>) = Return c'
      \<Longrightarrow> kBusy c' = kBusy c \<and> kNeedDrain c' = kNeedDrain c" for x
    using resume_socket_return [of so ro "c\<lparr>kServerName := x\<rparr>" c'] by simp
  have b: "kBusy (c\<lparr>kServerName := x,
             kSocket := map_option (util_destroy e) (kSocket (c\<lparr>kServerName := x\<rparr>))\<rparr>) = kBusy c"
    for x e
    using kBusy_destroyed [where c = "c\<lparr>kServerName := x\<rparr>" and e = e] by simp
  from assms a b resume_socket_return [of so ro c c'] show ?thesis
    by (auto simp: resume_servername_def Let_def split: option.splits if_splits)
qed

lemma resume_pick_return:
  assumes "resume_pick so c = Return c'"
  shows "kBusy c' = kBusy c \<and> kNeedDrain c' = kNeedDrain c"
  using assms resume_servername_return [of so _ c c']
  by (auto simp: resume_pick_def split: if_splits)

lemma resume_drain_return:
  assumes "resume_drain sync so c = Return c'"
  shows "(kNeedDrain c' = 2) = kBusy c'"
  using assms resume_pick_return [of so c c'] resume_pick_return [of so "c\<lparr>kNeedDrain := 2\<rparr>" c']
  by (auto simp: resume_drain_def split: if_splits)

lemma resume_step_return:
  assumes "resume_step sync c = Return c'" "\<not> kDestroyed c"
  shows "(kNeedDrain c' = 2) = kBusy c'"
  using assms resume_drain_return [of sync _ _ c']
  by (auto simp: resume_step_def split: if_splits option.splits outcome.splits)

lemma resume_step_open:
  assumes "\<not> kDestroyed c" "\<not> kClosed c"
  shows "\<not> kDestroyed (step_state (resume_step sync c)) \<and> \<not> kClosed (step_state (resume_step sync c))"
proof -
  have p: "\<not> kDestroyed c' \<and> \<not> kClosed c'" if "pick_result (c0\<lparr>kNeedDrain := v\<rparr>) c'"
    "\<not> kDestroyed c0" "\<not> kClosed c0" for c0 c' v
    using that by (auto simp: pick_result_def quiet_def write_result_def)
  show ?thesis
  proof (cases "kSocket c")
    case None
    from resume_drain_result [of c sync None] obtain v where
      "pick_result (c\<lparr>kNeedDrain := v\<rparr>) (step_state (resume_drain sync None c))" by blast
    from p [OF this assms] None assms show ?thesis by (simp add: resume_step_def)
  next
    case (Some s)
    show ?thesis
    proof (cases "resume_timers c s")
      case (Thrown e s')
      with Some assms show ?thesis by (simp add: resume_step_def)
    next
      case (Done s')
      from resume_drain_result [of "c\<lparr>kSocket := Some s'\<rparr>" sync "Some s'"] obtain v where
        "pick_result (c\<lparr>kSocket := Some s', kNeedDrain := v\<rparr>)
           (step_state (resume_drain sync (Some s') (c\<lparr>kSocket := Some s'\<rparr>)))" by auto
      from p [OF this] assms
      have "\<not> kDestroyed (step_state (resume_drain sync (Some s') (c\<lparr>kSocket := Some s'\<rparr>)))
          \<and> \<not> kClosed (step_state (resume_drain sync (Some s') (c\<lparr>kSocket := Some s'\<rparr>)))"
        by simp
      with Some Done assms show ?thesis by (simp add: resume_step_def)
    qed
  qed
qed

lemma resume_loop_busy:
  assumes "resume_loop sync c = Done c'" "\<not> kDestroyed c" "\<not> kClosed c"
  shows "(kNeedDrain c' = 2) = kBusy c'"
  using assms
proof (induction sync c rule: resume_loop.induct)
  case (1 sync c)
  show ?case
  proof (cases "resume_step sync c")
    case (Continue c1)
    from resume_step_open [OF "1.prems"(2,3), of sync] Continue
    have "\<not> kDestroyed c1" "\<not> kClosed c1" by simp_all
    moreover from "1.prems"(1) Continue have "resume_loop sync c1 = Done c'"
      by (simp add: resume_loop.simps [of sync c])
    ultimately show ?thesis using "1.IH" [OF Continue] by simp
  next
    case (Return c1)
    with "1.prems"(1) have "c1 = c'" by (simp add: resume_loop.simps [of sync c])
    with resume_step_return [OF _ "1.prems"(2)] Return show ?thesis by simp
  next
    case (Throw e c1)
    with "1.prems"(1) show ?thesis by (simp add: resume_loop.simps [of sync c])
  qed
qed

lemma compact_busy:
  assumes "idx_inv c"
  shows "kBusy (compact c) = kBusy c \<and> kNeedDrain (compact c) = kNeedDrain c"
  using assms
  by (auto simp: compact_def kBusy_def kSize_def kPending_def pipelining_or_1_def
      splice_head_def idx_inv_def)

lemma resume_busy:
  assumes "resume sync c = Done c'" "kResuming c \<noteq> 2" "\<not> kDestroyed c" "\<not> kClosed c"
    "idx_inv c"
  shows "(kNeedDrain c' = 2) = kBusy c' \<and> kResuming c' = 0"
proof -
  from assms(1,2) obtain c1 where l: "resume_loop sync (c\<lparr>kResuming := 2\<rparr>) = Done c1"
    and c': "c' = compact (c1\<lparr>kResuming := 0\<rparr>)"
    by (auto simp: resume_def split: outcome.splits)
  from assms(3,4) resume_loop_busy [OF l] have b: "(kNeedDrain c1 = 2) = kBusy c1" by simp
  from assms(5) have "run_bound (kRunning c) c" by (rule run_bound_own)
  then have "run_bound (kRunning c) (c\<lparr>kResuming := 2\<rparr>)" by simp
  then have "run_bound (kRunning c) (state_of (resume_loop sync (c\<lparr>kResuming := 2\<rparr>)))"
    by (rule resume_loop_invariant [where P = "run_bound (kRunning c)"])
       (rule step_result_run_bound)
  with l have "idx_inv (c1\<lparr>kResuming := 0\<rparr>)" by (simp add: run_bound_def idx_inv_def)
  from compact_busy [OF this] b c' show ?thesis by (simp add: compact_def)
qed

lemma enqueue_busy:
  assumes "enqueue r c = Done c'" "idx_inv c"
  shows "(kNeedDrain c' = 2) = kBusy c'"
proof -
  define c1 where "c1 = c\<lparr>kQueue := kQueue c @ [Some r]\<rparr>"
  from assms(1) have o: "\<not> kDestroyed c1" "\<not> kClosed c1"
    by (auto simp: enqueue_def c1_def split: if_splits)
  from assms(2) have i1: "idx_inv c1" and p: "kPending c1 > 0"
    by (auto simp: idx_inv_def c1_def kPending_def)
  from p have b1: "kBusy c1" by (simp add: kBusy_def)
  show ?thesis
  proof (cases "kResuming c1 \<noteq> 0 \<or> isStream (body r)")
    case True
    with assms(1) o b1 show ?thesis
      by (auto simp: enqueue_def Let_def c1_def [symmetric] split: if_splits)
  next
    case False
    with assms(1) o obtain c2 where r: "resume True c1 = Done c2"
      and c': "c' = (if kResuming c2 \<noteq> 0 \<and> kNeedDrain c2 \<noteq> 2 \<and> kBusy c2
                     then c2\<lparr>kNeedDrain := 2\<rparr> else c2)"
      by (auto simp: enqueue_def Let_def c1_def [symmetric] split: if_splits outcome.splits)
    from False have "kResuming c1 \<noteq> 2" by simp
    from resume_busy [OF r this o i1] c' show ?thesis by simp
  qed
qed

text \<open>
  C7. \<open>kNeedDrain\<close> only takes the values 0, 1 and 2, and \<^verbatim>\<open>dispatch\<close>, when it
  returns, returns false exactly when \<open>kNeedDrain\<close> is 2 at that time, true otherwise.
  When the request has been put on the queue and the statements after it have run without
  an exception, \<open>kNeedDrain\<close> is 2 at the return exactly when the client is busy then
  (\<^verbatim>\<open>kBusy\<close>: the socket is marked for reset or is being written by a stream body, or
  \<^verbatim>\<open>kPipelining || 1\<close> or more requests are on the queue, or one of them is waiting), so
  that \<^verbatim>\<open>dispatch\<close> returns false exactly when the client is busy after the enqueuing.
\<close>

theorem dispatch_return:
  assumes "kNeedDrain c \<le> 2" and "dispatch Request oo h c = Returned b c'"
  shows "(\<not> b \<longleftrightarrow> kNeedDrain c' = 2) \<and> (b \<longleftrightarrow> kNeedDrain c' < 2)
     \<and> (idx_inv c \<and> (\<exists>c1. dispatch_try Request oo h c = Done c1)
          \<longrightarrow> (kNeedDrain c' = 2 \<longleftrightarrow> kBusy c') \<and> (\<not> b \<longleftrightarrow> kBusy c'))"
proof -
  from assms(2) have io: "is_object h" by (auto simp: dispatch_def split: if_splits)
  from dispatch_try_drain [OF assms(1), of Request oo h]
  have d: "kNeedDrain (state_of (dispatch_try Request oo h c)) \<le> 2" .
  from assms(2) io have e: "kNeedDrain c' = kNeedDrain (state_of (dispatch_try Request oo h c))
      \<and> b = (kNeedDrain c' < 2)"
    by (cases "dispatch_try Request oo h c") (auto simp: dispatch_def split: if_splits)
  with d have first: "(\<not> b \<longleftrightarrow> kNeedDrain c' = 2) \<and> (b \<longleftrightarrow> kNeedDrain c' < 2)" by auto
  have second: "(kNeedDrain c' = 2 \<longleftrightarrow> kBusy c') \<and> (\<not> b \<longleftrightarrow> kBusy c')"
    if i: "idx_inv c" and t: "dispatch_try Request oo h c = Done c1" for c1
  proof -
    from t obtain r where "enqueue r c = Done c1"
      by (auto simp: dispatch_try_def split: option.splits sum.splits)
    from enqueue_busy [OF this i] have "(kNeedDrain c1 = 2) = kBusy c1" .
    moreover from assms(2) io t have "c' = c1\<lparr>fresh := Suc (fresh c)\<rparr>"
      by (simp add: dispatch_def)
    ultimately have "(kNeedDrain c' = 2) = kBusy c'" by simp
    with first show ?thesis by blast
  qed
  from first second show ?thesis by blast
qed

theorem dispatch_return_witness:
  "kNeedDrain (Client_new default_config 1) \<le> 2
   \<and> dispatch request_js (Some get_opts) plain_handler (Client_new default_config 1)
     = Returned False one_get
   \<and> kNeedDrain one_get = 2 \<and> kBusy one_get
   \<and> dispatch request_js (Some get_opts) plain_handler (connected_gets 3 1)
     = Returned True two_of_three
   \<and> kNeedDrain two_of_three < 2 \<and> \<not> kBusy two_of_three
   \<and> dispatch request_js (Some bad_opts) plain_handler (Client_new default_config 1)
     = Returned True one_bad
   \<and> kNeedDrain one_bad < 2"
proof -
  have a: "kNeedDrain (Client_new default_config 1) \<le> 2" by (simp add: Client_new_def)
  have a3: "kNeedDrain (connected_gets 3 1) \<le> 2" by code_simp
  have i: "idx_inv (Client_new default_config 1)" "idx_inv (connected_gets 3 1)" by code_simp+
  have b: "dispatch request_js (Some get_opts) plain_handler (Client_new default_config 1)
     = Returned False one_get" by code_simp
  have b3: "dispatch request_js (Some get_opts) plain_handler (connected_gets 3 1)
     = Returned True two_of_three" by code_simp
  have c: "dispatch request_js (Some bad_opts) plain_handler (Client_new default_config 1)
     = Returned True one_bad" by code_simp
  have "dispatch_try request_js (Some get_opts) plain_handler (Client_new default_config 1)
     = Done (state_of (dispatch_try request_js (Some get_opts) plain_handler (Client_new default_config 1)))"
    by code_simp
  then have t: "\<exists>c1. dispatch_try request_js (Some get_opts) plain_handler (Client_new default_config 1)
     = Done c1" by blast
  have "dispatch_try request_js (Some get_opts) plain_handler (connected_gets 3 1)
     = Done (state_of (dispatch_try request_js (Some get_opts) plain_handler (connected_gets 3 1)))"
    by code_simp
  then have t3: "\<exists>c1. dispatch_try request_js (Some get_opts) plain_handler (connected_gets 3 1)
     = Done c1" by blast
  from dispatch_return [OF a b] i(1) t have d: "kNeedDrain one_get = 2" "kBusy one_get"
    by blast+
  from dispatch_return [OF a3 b3] i(2) t3 have d3: "kNeedDrain two_of_three < 2"
    "\<not> kBusy two_of_three" by blast+
  from dispatch_return [OF a c] have e: "kNeedDrain one_bad < 2" by blast
  from a b c d d3 b3 e show ?thesis by blast
qed

section \<open>The writer and CONNECT requests\<close>

lemma write_body_written:
  assumes "write_body c r cl hdr s = Done s'"
  shows "(kReset s \<longrightarrow> kReset s')
     \<and> (if truthy (body r) \<and> \<not> isBuffer (body r)
         then kWriting s' \<and> written s' = written s
         else (\<exists>d ds. written s' = written s @ d # ds \<and> take (length hdr) d = hdr))
     \<and> ((truthy (body r) \<and> \<not> isBuffer (body r)) = isStream (body r))"
  using assms
  by (auto simp: write_body_def socket_write_def Let_def isStream_def isBuffer_def
      split: if_splits option.splits jsval.splits)

lemma request_header_method:
  "\<exists>rest. request_header c r = http_method r @ '' '' @ rest"
  by (simp add: request_header_def)

lemma take_connect:
  assumes "take (length hdr) d = hdr" and "hdr = ''CONNECT'' @ '' '' @ rest"
  shows "take 8 d = ''CONNECT ''"
proof -
  from assms have "take 8 (take (length hdr) d) = take 8 hdr" by simp
  moreover from assms(2) have "8 \<le> length hdr" by simp
  ultimately have "take 8 d = take 8 hdr" by (simp add: min_def)
  with assms(2) show ?thesis by simp
qed

lemma write_socket_connect:
  assumes "http_method r = ''CONNECT''" and "write_socket r cl c = Done (ok, r', c')"
  shows "ok \<and> r' = r \<and> (\<exists>s s'. kSocket c = Some s \<and> kSocket c' = Some s' \<and> kReset s'
     \<and> (if isStream (body r)
         then kWriting s' \<and> written s' = written s
         else (\<exists>d ds. written s' = written s @ d # ds \<and> take 8 d = ''CONNECT '')))"
proof -
  from assms(2) obtain s where s: "kSocket c = Some s"
    by (cases "kSocket c") (auto simp: write_socket_def)
  with assms obtain s' where w: "write_body c r cl (request_header c r) (s\<lparr>kReset := True\<rparr>) = Done s'"
    and r: "ok" "r' = r" "c' = c\<lparr>kSocket := Some s'\<rparr>"
    by (auto simp: write_socket_def split: outcome.splits)
  from request_header_method [of c r] assms(1) obtain rest where
    h: "request_header c r = ''CONNECT'' @ '' '' @ rest" by auto
  from write_body_written [OF w] have k: "kReset s'" by simp
  from write_body_written [OF w]
  have b: "if truthy (body r) \<and> \<not> isBuffer (body r)
         then kWriting s' \<and> written s' = written s
         else (\<exists>d ds. written s' = written s @ d # ds
                 \<and> take (length (request_header c r)) d = request_header c r)"
    by (auto split: if_splits)
  from write_body_written [OF w]
  have st: "(truthy (body r) \<and> \<not> isBuffer (body r)) = isStream (body r)" by simp
  have "if truthy (body r) \<and> \<not> isBuffer (body r)
         then kWriting s' \<and> written s' = written s
         else (\<exists>d ds. written s' = written s @ d # ds \<and> take 8 d = ''CONNECT '')"
  proof (cases "truthy (body r) \<and> \<not> isBuffer (body r)")
    case True
    with b show ?thesis by simp
  next
    case False
    with b obtain d ds where "written s' = written s @ d # ds"
      "take (length (request_header c r)) d = request_header c r" by auto
    with take_connect [OF _ h, of d] False show ?thesis by auto
  qed
  with s r k st show ?thesis by simp
qed

lemma connect_request_proceeds:
  assumes "\<not> aborted (fst (connect_request r c))"
  shows "kSocket (snd (connect_request r c)) = kSocket c \<and> \<not> aborted r
     \<and> http_method (fst (connect_request r c)) = http_method r
     \<and> body (fst (connect_request r c)) = body r
     \<and> trace (snd (connect_request r c)) = trace c @ [(rid r, OnConnect)]"
proof (cases "aborted r")
  case True
  with assms show ?thesis
    by (simp add: connect_request_def fail_request_def Request_onError_def)
next
  case False
  note na = this
  show ?thesis
  proof (cases "on_connect (handler r)")
    case Proceed
    with na show ?thesis by (simp add: connect_request_def Let_def record_effects_def)
  next
    case (AbortNow eo)
    with na assms show ?thesis
      by (simp add: connect_request_def Let_def fail_request_def Request_onError_def
          destroy_request_def split: if_splits)
  next
    case (Raise e)
    with na assms show ?thesis
      by (simp add: connect_request_def Let_def fail_request_def Request_onError_def
          destroy_request_def split: if_splits)
  qed
qed

lemma aborted_fail [simp]: "aborted (fst (fail_request e r c))"
  by (simp add: fail_request_def Request_onError_def destroy_request_def Let_def)

text \<open>
  C8, as the code has it. The writer of this revision serializes a CONNECT request like any
  other. When \<^verbatim>\<open>write\<close> returns for a request whose method is CONNECT, it returns false only
  for a request that has been failed (by the content-length check or by the handler's
  \<^verbatim>\<open>onConnect\<close>); when it returns true the request is not aborted, the reset flag of the
  socket is set, so that nothing is pipelined behind it, and the socket has been written a
  chunk that starts with \<^verbatim>\<open>CONNECT \<close>, or, for a stream body, the socket is marked as
  writing and the head is left to the stream.
\<close>

theorem write_connect:
  assumes "http_method r = ''CONNECT''" and "write_req r c = Done (ok, r', c')"
  shows "(\<not> ok \<longrightarrow> aborted r')
     \<and> (ok \<longrightarrow> \<not> aborted r' \<and>
          (\<exists>s s'. kSocket c = Some s \<and> kSocket c' = Some s' \<and> kReset s'
             \<and> (if isStream (body r) then kWriting s' \<and> written s' = written s
                 else (\<exists>d ds. written s' = written s @ d # ds \<and> take 8 d = ''CONNECT ''))))"
proof -
  have core: "(\<not> ok \<longrightarrow> aborted r')
     \<and> (ok \<longrightarrow> \<not> aborted r' \<and>
          (\<exists>s s'. kSocket c0 = Some s \<and> kSocket c' = Some s' \<and> kReset s'
             \<and> (if isStream (body r) then kWriting s' \<and> written s' = written s
                 else (\<exists>d ds. written s' = written s @ d # ds \<and> take 8 d = ''CONNECT ''))))"
    if h: "(if aborted (fst (connect_request r c0)) then Done (False, connect_request r c0)
            else write_socket (fst (connect_request r c0)) cl (snd (connect_request r c0)))
           = Done (ok, r', c')" for c0 cl
  proof (cases "aborted (fst (connect_request r c0))")
    case True
    with h show ?thesis by (auto simp: prod_eq_iff)
  next
    case False
    with h have w: "write_socket (fst (connect_request r c0)) cl (snd (connect_request r c0))
        = Done (ok, r', c')" by simp
    from connect_request_proceeds [OF False] assms(1)
    have p: "kSocket (snd (connect_request r c0)) = kSocket c0"
      "http_method (fst (connect_request r c0)) = ''CONNECT''"
      "body (fst (connect_request r c0)) = body r" by simp_all
    from write_socket_connect [OF p(2) w] False p(1,3) show ?thesis by simp
  qed
  show ?thesis
  proof (cases "contentLength r \<noteq> None \<and> contentLength r \<noteq> write_contentLength r")
    case False
    with assms(2)
    have "(if aborted (fst (connect_request r c)) then Done (False, connect_request r c)
           else write_socket (fst (connect_request r c)) (write_contentLength r)
                  (snd (connect_request r c))) = Done (ok, r', c')"
      by (auto simp: write_req_def Let_def split: if_splits)
    from core [OF this] show ?thesis .
  next
    case True
    show ?thesis
    proof (cases "kStrictContentLength (conf c)")
      case True
      with \<open>contentLength r \<noteq> None \<and> contentLength r \<noteq> write_contentLength r\<close> assms(2)
      show ?thesis by (auto simp: write_req_def prod_eq_iff)
    next
      case False
      define c0 where "c0 = c\<lparr>emitted := emitted c @ [EWarning RequestContentLengthMismatchError]\<rparr>"
      from False True assms(2)
      have "(if aborted (fst (connect_request r c0)) then Done (False, connect_request r c0)
             else write_socket (fst (connect_request r c0)) (write_contentLength r)
                    (snd (connect_request r c0))) = Done (ok, r', c')"
        by (auto simp: write_req_def Let_def c0_def split: if_splits)
      from core [OF this] show ?thesis by (simp add: c0_def)
    qed
  qed
qed

theorem write_connect_witness:
  "http_method (get_request 1\<lparr>http_method := ''CONNECT''\<rparr>) = ''CONNECT''
   \<and> (\<exists>r' c'. write_req (get_request 1\<lparr>http_method := ''CONNECT''\<rparr>) (connected_gets 2 1)
                 = Done (True, r', c')
        \<and> \<not> aborted r'
        \<and> (\<exists>s s'. kSocket (connected_gets 2 1) = Some s \<and> kSocket c' = Some s' \<and> kReset s'
             \<and> (\<exists>d ds. written s' = written s @ d # ds \<and> take 8 d = ''CONNECT '')))"
proof -
  define r where "r = get_request 1\<lparr>http_method := ''CONNECT''\<rparr>"
  have m: "http_method r = ''CONNECT''" by (simp add: r_def)
  have b: "\<not> isStream (body r)" by (simp add: r_def get_request_def isStream_def)
  have d: "write_req (get_request 1\<lparr>http_method := ''CONNECT''\<rparr>) (connected_gets 2 1)
      = Done (state_of (write_req (get_request 1\<lparr>http_method := ''CONNECT''\<rparr>)
                 (connected_gets 2 1)))"
    by code_simp
  have t: "fst (state_of (write_req (get_request 1\<lparr>http_method := ''CONNECT''\<rparr>)
                 (connected_gets 2 1)))"
    by code_simp
  obtain ok r' c' where e: "state_of (write_req r (connected_gets 2 1)) = (ok, r', c')"
    by (cases "state_of (write_req r (connected_gets 2 1))") auto
  from d e have w: "write_req r (connected_gets 2 1) = Done (ok, r', c')" by (simp add: r_def)
  from t e have ok by (simp add: r_def)
  with write_connect [OF m w] b w m show ?thesis unfolding r_def by auto
qed

text \<open>
  A new client with pipelining 1 dispatches one CONNECT request and its socket connects:
  the request is running, its handler has been told of the connection and of no error, and
  the head of the request is on the socket.
\<close>

theorem connect_written_counterexample:
  "map_option written (kSocket connected_connect)
     = Some [''CONNECT / HTTP/1.1'' @ CRLF @ ''connection: keep-alive'' @ CRLF
             @ ''host: localhost'' @ CRLF @ CRLF]
   \<and> map_option kReset (kSocket connected_connect) = Some True
   \<and> kRunning connected_connect = 1
   \<and> trace connected_connect = [(0, OnConnect)]"
  by code_simp

section \<open>Properties of the redirect handler\<close>

text \<open>
  C9, as the code has it. A 303 response with a non-empty Location header that the URL
  parser accepts is followed by a dispatch of new options: the method is GET and the body
  is dropped for every original method but HEAD; a HEAD request stays a HEAD request and
  its body field is left as it was.
\<close>

theorem redirect_303_method:
  assumes "parseLocation hs = Some loc" and "loc \<noteq> []"
    and "resolve loc (ro_origin (rh_opts h)) = Some u"
    and "ro_headers (rh_opts h) \<noteq> HOther"
  shows "\<exists>opts'. followed resolve 303 hs h = [Dispatch opts']
     \<and> ro_method opts' = (if ro_method (rh_opts h) = ''HEAD'' then ''HEAD'' else ''GET'')
     \<and> ro_body opts' = (if ro_method (rh_opts h) = ''HEAD'' then ro_body (rh_opts h) else JNull)"
  using assms
  by (cases "ro_headers (rh_opts h)")
     (auto simp: followed_def RedirectHandler_onHeaders_def RedirectHandler_onComplete_def
        cleanRequestHeaders_def Let_def)

theorem redirect_303_method_witness:
  "parseLocation [''Location'', ''/next''] = Some ''/next''
   \<and> same_origin ''/next'' (ro_origin (rh_opts (redirect_example ''POST'')))
       = Some \<lparr> u_origin = ''http://a'', u_pathname = ''/next'', u_search = [] \<rparr>
   \<and> (\<exists>opts'. followed same_origin 303 [''Location'', ''/next''] (redirect_example ''POST'')
           = [Dispatch opts']
         \<and> ro_method opts' = ''GET'' \<and> ro_body opts' = JNull)"
proof -
  have loc: "parseLocation [''Location'', ''/next''] = Some ''/next''"
    by code_simp
  have res: "same_origin ''/next'' (ro_origin (rh_opts (redirect_example ''POST'')))
       = Some \<lparr> u_origin = ''http://a'', u_pathname = ''/next'', u_search = [] \<rparr>"
    by (simp add: same_origin_def redirect_example_def)
  have hs: "ro_headers (rh_opts (redirect_example ''POST'')) \<noteq> HOther"
    by (simp add: redirect_example_def)
  have m: "ro_method (rh_opts (redirect_example ''POST'')) \<noteq> ''HEAD''"
    by (simp add: redirect_example_def)
  have ne: "''/next'' \<noteq> []" by simp
  from redirect_303_method [of "[''Location'', ''/next'']" "''/next''" same_origin
      "redirect_example ''POST''", OF loc ne res hs] m loc res
  show ?thesis by simp
qed

text \<open>
  The claim as written (the method is forced to GET for every original method) fails for
  a HEAD request: it is dispatched again as HEAD, body field included.
\<close>

theorem redirect_303_head_counterexample:
  "followed same_origin 303 [''Location'', ''/next''] (redirect_example ''HEAD'')
     = [Dispatch \<lparr> ro_origin = ''http://a'', ro_path = ''/next'', ro_method = ''HEAD'',
                   ro_body = JBuffer ''x'',
                   ro_headers = HArray [] \<rparr>]"
  by code_simp


end
